theory Spec2Isabelle
  imports Main
begin


section \<open>Text, character classes and the interpreter's Unicode tables\<close>

text \<open>
  \<^verbatim>\<open>fix_lint.py\<close> reads a file as a Python \<^verbatim>\<open>str\<close>, a sequence of Unicode code
  points, and rewrites it with eleven calls of \<^verbatim>\<open>re.sub\<close>.  A code point is a natural
  number here and a text is a list of them; \<open>ustr\<close> turns a literal into a text.

  The classes \<^verbatim>\<open>\w\<close> and \<^verbatim>\<open>\s\<close> of a \<^verbatim>\<open>str\<close> pattern follow the Unicode database of
  the interpreter.  On the 128 ASCII code points they are written out below; above
  them the database is a parameter \<open>ud\<close> of the model, so that nothing proved depends
  on what it says.
\<close>

type_synonym ustring = "nat list"

datatype cclass = Word | Space

type_synonym unidata = "cclass \<Rightarrow> nat \<Rightarrow> bool"

definition ustr :: "string \<Rightarrow> ustring" where
  "ustr s = map of_char s"

definition ascii_only :: unidata where
  "ascii_only = (\<lambda>cl c. False)"

definition ascii_word :: "nat \<Rightarrow> bool" where
  "ascii_word c = ((48 \<le> c \<and> c \<le> 57) \<or> (65 \<le> c \<and> c \<le> 90) \<or> c = 95 \<or> (97 \<le> c \<and> c \<le> 122))"

definition ascii_space :: "nat \<Rightarrow> bool" where
  "ascii_space c = ((9 \<le> c \<and> c \<le> 13) \<or> (28 \<le> c \<and> c \<le> 32))"

fun in_class :: "unidata \<Rightarrow> cclass \<Rightarrow> nat \<Rightarrow> bool" where
  "in_class ud Word c = (if c < 128 then ascii_word c else ud Word c)"
| "in_class ud Space c = (if c < 128 then ascii_space c else ud Space c)"

text \<open>The character before a position and the text from it on; \<open>None\<close> is the start.\<close>

fun is_word_opt :: "unidata \<Rightarrow> nat option \<Rightarrow> bool" where
  "is_word_opt ud None = False"
| "is_word_opt ud (Some c) = in_class ud Word c"

fun first :: "ustring \<Rightarrow> nat option" where
  "first [] = None"
| "first (c # cs) = Some c"

definition at_boundary :: "unidata \<Rightarrow> nat option \<Rightarrow> ustring \<Rightarrow> bool" where
  "at_boundary ud prev s = (is_word_opt ud prev \<noteq> is_word_opt ud (first s))"

section \<open>The regular expressions of the script\<close>

text \<open>
  The eleven patterns use literal characters, \<^verbatim>\<open>\w+\<close>, \<^verbatim>\<open>\s*\<close>, one capturing
  group \<^verbatim>\<open>(\w+)\<close> and the assertion \<^verbatim>\<open>\b\<close>, in sequence.  A pattern is a list of
  such items.  \<open>rmatch\<close> is the backtracking matcher at one position: it returns the
  length of the match and the text of group 1.  A repetition is greedy: it first
  takes the whole run of characters of its class and gives characters back one by
  one while the rest of the pattern fails.
\<close>

datatype item = Ch nat | Many0 cclass | Many1 cclass | Cap1 cclass | WordB

definition lits :: "string \<Rightarrow> item list" where
  "lits s = map Ch (ustr s)"

definition run :: "unidata \<Rightarrow> cclass \<Rightarrow> ustring \<Rightarrow> nat" where
  "run ud cl s = length (takeWhile (in_class ud cl) s)"

primrec greedy :: "(nat \<Rightarrow> 'a option) \<Rightarrow> nat \<Rightarrow> nat \<Rightarrow> 'a option" where
  "greedy f lo 0 = (if lo = 0 then f 0 else None)"
| "greedy f lo (Suc k) =
     (if Suc k < lo then None
      else case f (Suc k) of Some r \<Rightarrow> Some r | None \<Rightarrow> greedy f lo k)"

text \<open>The character before the position reached when \<open>x\<close> has been read after \<open>prev\<close>.\<close>

definition prev_of :: "nat option \<Rightarrow> ustring \<Rightarrow> nat option" where
  "prev_of prev x = (if x = [] then prev else Some (last x))"

definition advance :: "nat \<Rightarrow> (nat \<times> ustring) option \<Rightarrow> (nat \<times> ustring) option" where
  "advance k r = map_option (\<lambda>(n, g). (k + n, g)) r"

definition capture :: "ustring \<Rightarrow> (nat \<times> ustring) option \<Rightarrow> (nat \<times> ustring) option" where
  "capture g r = map_option (\<lambda>(n, _). (n, g)) r"

primrec rmatch :: "unidata \<Rightarrow> item list \<Rightarrow> nat option \<Rightarrow> ustring \<Rightarrow> (nat \<times> ustring) option" where
  "rmatch ud [] = (\<lambda>prev s. Some (0, []))"
| "rmatch ud (p # ps) = (\<lambda>prev s.
     case p of
       Ch c \<Rightarrow>
         (case s of
            [] \<Rightarrow> None
          | x # xs \<Rightarrow> if x = c then advance 1 (rmatch ud ps (Some x) xs) else None)
     | WordB \<Rightarrow> if at_boundary ud prev s then rmatch ud ps prev s else None
     | Many0 cl \<Rightarrow>
         greedy (\<lambda>k. advance k (rmatch ud ps (prev_of prev (take k s)) (drop k s))) 0 (run ud cl s)
     | Many1 cl \<Rightarrow>
         greedy (\<lambda>k. advance k (rmatch ud ps (prev_of prev (take k s)) (drop k s))) 1 (run ud cl s)
     | Cap1 cl \<Rightarrow>
         greedy (\<lambda>k. capture (take k s)
                   (advance k (rmatch ud ps (prev_of prev (take k s)) (drop k s)))) 1 (run ud cl s))"

section \<open>Substitution\<close>

text \<open>
  A replacement template is literal text and references to group 1.  \<open>sub_from\<close> is
  the scan of \<^verbatim>\<open>re.sub\<close>: at each position, from left to right, the pattern is tried;
  a match is replaced and the scan goes on behind it, otherwise the character is
  copied.  A match of length zero is replaced and the scan moves on by one character,
  as the interpreter does; no pattern of the script has such a match.
\<close>

datatype rtok = Lit string | Backref

fun expand :: "rtok list \<Rightarrow> ustring \<Rightarrow> ustring" where
  "expand [] g = []"
| "expand (Lit s # ts) g = ustr s @ expand ts g"
| "expand (Backref # ts) g = g @ expand ts g"

function sub_from :: "unidata \<Rightarrow> item list \<Rightarrow> rtok list \<Rightarrow> nat option \<Rightarrow> ustring \<Rightarrow> ustring" where
  "sub_from ud pat repl prev [] =
     (case rmatch ud pat prev [] of None \<Rightarrow> [] | Some (n, g) \<Rightarrow> expand repl g)"
| "sub_from ud pat repl prev (c # cs) =
     (case rmatch ud pat prev (c # cs) of
        None \<Rightarrow> c # sub_from ud pat repl (Some c) cs
      | Some (n, g) \<Rightarrow>
          if n = 0 then expand repl g @ c # sub_from ud pat repl (Some c) cs
          else expand repl g @
               sub_from ud pat repl (prev_of prev (take n (c # cs))) (drop n (c # cs)))"
  by pat_completeness auto
termination
  by (relation "measure (\<lambda>(ud, pat, repl, prev, s). length s)") auto

definition re_sub :: "unidata \<Rightarrow> item list \<Rightarrow> rtok list \<Rightarrow> ustring \<Rightarrow> ustring" where
  "re_sub ud pat repl content = sub_from ud pat repl None content"

section \<open>The rule set of fix_file\<close>

definition pat_name :: "item list" where
  "pat_name = Cap1 Word # lits ''[name] ||''"

definition pat_value :: "item list" where
  "pat_value = Cap1 Word # lits ''[value] ||''"

definition repl_name :: "rtok list" where
  "repl_name = [Backref, Lit ''[name] ??'']"

definition pat_not :: "string \<Rightarrow> item list" where
  "pat_not v = lits (CHR ''!'' # v) @ [WordB]"

definition repl_null :: "string \<Rightarrow> rtok list" where
  "repl_null v = [Lit (v @ '' == null'')]"

definition pat_empty_obj :: "item list" where
  "pat_empty_obj =
     lits ''if'' @ [Many0 Space] @ lits ''('' @ [Many0 Space] @ lits ''{'' @
     [Many0 Space] @ lits ''}'' @ [Many0 Space] @ lits '')''"

definition pat_log :: "item list" where
  "pat_log = lits ''console.log(''"

definition pat_unused :: "item list" where
  "pat_unused = [WordB] @ lits ''unused'' @ [Cap1 Word, WordB]"

definition fix_text :: "unidata \<Rightarrow> ustring \<Rightarrow> ustring" where
  "fix_text ud content =
    (let content = re_sub ud pat_name repl_name content;
         content = re_sub ud pat_value repl_name content;
         content = re_sub ud (pat_not ''text'') (repl_null ''text'') content;
         content = re_sub ud (pat_not ''result'') (repl_null ''result'') content;
         content = re_sub ud (pat_not ''response'') (repl_null ''response'') content;
         content = re_sub ud (pat_not ''jsonData'') (repl_null ''jsonData'') content;
         content = re_sub ud (pat_not ''instance'') (repl_null ''instance'') content;
         content = re_sub ud (pat_not ''options'') (repl_null ''options'') content;
         content = re_sub ud pat_empty_obj [Lit ''if (false)''] content;
         content = re_sub ud pat_log [Lit ''console.warn(''] content;
         content = re_sub ud pat_unused [Lit ''_'', Backref] content
     in content)"

text \<open>\<^verbatim>\<open>re.search\<close>: whether the pattern matches at some position of the text.\<close>

fun found_from :: "unidata \<Rightarrow> item list \<Rightarrow> nat option \<Rightarrow> ustring \<Rightarrow> bool" where
  "found_from ud pat prev [] = (rmatch ud pat prev [] \<noteq> None)"
| "found_from ud pat prev (c # cs) =
     (rmatch ud pat prev (c # cs) \<noteq> None \<or> found_from ud pat (Some c) cs)"

definition found :: "unidata \<Rightarrow> item list \<Rightarrow> ustring \<Rightarrow> bool" where
  "found ud pat content = found_from ud pat None content"

definition patterns :: "item list list" where
  "patterns =
     [pat_name, pat_value, pat_not ''text'', pat_not ''result'', pat_not ''response'',
      pat_not ''jsonData'', pat_not ''instance'', pat_not ''options'', pat_empty_obj,
      pat_log, pat_unused]"

section \<open>Files, fix_file and the main loop\<close>

text \<open>
  The script touches the world through \<^verbatim>\<open>open\<close>, \<^verbatim>\<open>read\<close>, \<^verbatim>\<open>write\<close> and \<^verbatim>\<open>print\<close>.
  An exception is its message, \<^verbatim>\<open>str(e)\<close>, since the script only prints it.

  Several paths may name one file (\<^verbatim>\<open>a.js\<close> and \<^verbatim>\<open>./a.js\<close>, links): \<open>names\<close> gives the
  file behind a path and \<open>disk\<close> the state of each file, so that \<open>files w p\<close> is what the
  path \<open>p\<close> leads to.  A file is an exception of the read (no such file, a directory, no
  permission, bytes that do not decode) or the text of the file.  A readable file also
  says how writing to it goes: \<open>open_w\<close> is the exception of \<^verbatim>\<open>open(filepath, 'w')\<close>,
  raised before the file is touched; \<open>flush_w\<close> is an exception raised once the file is
  open and truncated, with the number of characters that reached it.

  \<^verbatim>\<open>print\<close> can raise as well (a line that the encoding of the output cannot take, a
  closed pipe): \<open>stdout_err\<close> says, for what has been printed so far and a line, which
  exception the print of that line raises, if any.  A line that raises does not reach
  the output.
\<close>

datatype exn = Exn (message: string)

record fnode =
  data :: ustring
  open_w :: "exn option"
  flush_w :: "(exn \<times> nat) option"

datatype node = Unreadable exn | Readable fnode

record world =
  disk :: "string \<Rightarrow> node"
  names :: "string \<Rightarrow> string"
  stdout :: "string list"
  stdout_err :: "string list \<Rightarrow> string \<Rightarrow> exn option"

definition files :: "world \<Rightarrow> string \<Rightarrow> node" where
  "files w filepath = disk w (names w filepath)"

definition print :: "string \<Rightarrow> world \<Rightarrow> exn + world" where
  "print line w =
     (case stdout_err w (stdout w) line of
        Some e \<Rightarrow> Inl e
      | None \<Rightarrow> Inr (w\<lparr>stdout := stdout w @ [line]\<rparr>))"

definition store :: "string \<Rightarrow> fnode \<Rightarrow> world \<Rightarrow> world" where
  "store filepath f w = w\<lparr>disk := (disk w)(names w filepath := Readable f)\<rparr>"

text \<open>
  \<open>fix_file\<close> returns the exception that leaves it, if any, and the world behind it.
\<close>

definition fix_file :: "unidata \<Rightarrow> string \<Rightarrow> world \<Rightarrow> exn option \<times> world" where
  "fix_file ud filepath w =
     (case files w filepath of
        Unreadable e \<Rightarrow> (Some e, w)
      | Readable f \<Rightarrow>
          (let original = data f;
               content = fix_text ud original
           in if content \<noteq> original then
                (case open_w f of
                   Some e \<Rightarrow> (Some e, w)
                 | None \<Rightarrow>
                     (case flush_w f of
                        Some (e, k) \<Rightarrow> (Some e, store filepath (f\<lparr>data := take k content\<rparr>) w)
                      | None \<Rightarrow>
                          (let written = store filepath (f\<lparr>data := content\<rparr>) w
                           in case print (''Fixed: '' @ filepath) written of
                                Inl e \<Rightarrow> (Some e, written)
                              | Inr w' \<Rightarrow> (None, w'))))
              else (None, w)))"

text \<open>
  The loop of the script.  \<^verbatim>\<open>except Exception\<close> catches what \<open>fix_file\<close> raises; the
  \<^verbatim>\<open>print\<close> of the handler stands outside every \<^verbatim>\<open>try\<close>, so an exception of it ends the
  run.  \<open>main\<close> returns that exception, if any, and the world behind the run.
\<close>

fun main :: "unidata \<Rightarrow> string list \<Rightarrow> world \<Rightarrow> exn option \<times> world" where
  "main ud [] w = (None, w)"
| "main ud (filepath # rest) w =
     (case fix_file ud filepath w of
        (None, w') \<Rightarrow> main ud rest w'
      | (Some e, w') \<Rightarrow>
          (case print (''Error fixing '' @ filepath @ '': '' @ message e) w' of
             Inl e' \<Rightarrow> (Some e', w')
           | Inr w'' \<Rightarrow> main ud rest w''))"

section \<open>Notions used in the statements and proofs\<close>

text \<open>
  Whether an item of a pattern can read the character \<open>d\<close>.  A character that no item
  of a pattern reads cannot be part of a match of it.
\<close>

fun accepts :: "unidata \<Rightarrow> item \<Rightarrow> nat \<Rightarrow> bool" where
  "accepts ud (Ch c) d = (c = d)"
| "accepts ud (Many0 cl) d = in_class ud cl d"
| "accepts ud (Many1 cl) d = in_class ud cl d"
| "accepts ud (Cap1 cl) d = in_class ud cl d"
| "accepts ud WordB d = False"

text \<open>
  The rule set as a list of patterns and replacements, in the order of the script, and
  what it means that a rule keeps a text \<open>t\<close>: wherever \<open>t\<close> stands, the rule leaves it
  in place, rewrites what follows it as it would alone, and what it makes of the text
  before \<open>t\<close> does not depend on what follows.
\<close>

definition rules :: "(item list \<times> rtok list) list" where
  "rules =
     [(pat_name, repl_name), (pat_value, repl_name),
      (pat_not ''text'', repl_null ''text''), (pat_not ''result'', repl_null ''result''),
      (pat_not ''response'', repl_null ''response''), (pat_not ''jsonData'', repl_null ''jsonData''),
      (pat_not ''instance'', repl_null ''instance''), (pat_not ''options'', repl_null ''options''),
      (pat_empty_obj, [Lit ''if (false)'']), (pat_log, [Lit ''console.warn('']),
      (pat_unused, [Lit ''_'', Backref])]"

definition apply_rules :: "unidata \<Rightarrow> (item list \<times> rtok list) list \<Rightarrow> ustring \<Rightarrow> ustring" where
  "apply_rules ud rs s = foldl (\<lambda>t r. re_sub ud (fst r) (snd r) t) s rs"

definition keeps :: "unidata \<Rightarrow> ustring \<Rightarrow> item list \<times> rtok list \<Rightarrow> bool" where
  "keeps ud t r =
     (\<forall>x. \<exists>X. \<forall>y. re_sub ud (fst r) (snd r) (x @ t @ y) = X @ t @ re_sub ud (fst r) (snd r) y)"

text \<open>The six identifiers of the negation rules.\<close>

definition nullable :: "string list" where
  "nullable = [''text'', ''result'', ''response'', ''jsonData'', ''instance'', ''options'']"

text \<open>
  A small world for the examples: two files that the rules change, one that they leave
  alone, and no other path; every path names a file of its own and every line can be
  printed.  The message of a missing file is the interpreter's for a path without
  apostrophes, backslashes and control characters.  \<open>closed_pipe\<close> is the same world
  with an output that takes no line.
\<close>

definition plain :: "string \<Rightarrow> fnode" where
  "plain s = \<lparr>data = ustr s, open_w = None, flush_w = None\<rparr>"

definition no_such_file :: "string \<Rightarrow> exn" where
  "no_such_file p = Exn (''[Errno 2] No such file or directory: '' @ [CHR 0x27] @ p @ [CHR 0x27])"

definition demo_world :: world where
  "demo_world =
     \<lparr>disk = (\<lambda>p. if p = ''a.js'' then Readable (plain ''console.log(\"hi\");'')
                   else if p = ''b.js'' then Readable (plain ''if (!options) { return; }'')
                   else if p = ''c.js'' then Readable (plain ''let x = 1;'')
                   else Unreadable (no_such_file p)),
      names = (\<lambda>p. p),
      stdout = [],
      stdout_err = (\<lambda>out line. None)\<rparr>"

definition closed_pipe :: world where
  "closed_pipe = demo_world\<lparr>stdout_err := (\<lambda>out line. Some (Exn ''[Errno 32] Broken pipe''))\<rparr>"

section \<open>Facts about the matcher\<close>

lemmas rule_defs = fix_text_def re_sub_def pat_name_def pat_value_def pat_not_def repl_null_def
  repl_name_def pat_empty_obj_def pat_log_def pat_unused_def lits_def ustr_def run_def advance_def
  capture_def prev_of_def at_boundary_def ascii_word_def ascii_space_def in_class.simps

text \<open>The classes are unfolded on demand, where a concrete character is classified.\<close>

declare in_class.simps [simp del]

lemmas class_defs = in_class.simps ascii_word_def ascii_space_def

subsection \<open>The greedy loop\<close>

lemma greedy_cong_le: "(\<And>k. k \<le> K \<Longrightarrow> f k = g k) \<Longrightarrow> greedy f lo K = greedy g lo K"
  by (induction K) (auto split: option.splits)

lemma greedy_first: "f K = Some r \<Longrightarrow> lo \<le> K \<Longrightarrow> greedy f lo K = Some r"
  by (cases K) auto

lemma greedy_Some: "greedy f lo K = Some r \<Longrightarrow> \<exists>k. lo \<le> k \<and> k \<le> K \<and> f k = Some r"
proof (induction K)
  case 0 then show ?case by (auto split: if_splits)
next
  case (Suc K)
  show ?case
  proof (cases "f (Suc K)")
    case None
    with Suc.prems have "greedy f lo K = Some r" by (auto split: if_splits)
    from Suc.IH[OF this] show ?thesis by (auto intro: le_SucI)
  next
    case (Some a)
    with Suc.prems have "a = r" "lo \<le> Suc K" by (auto split: if_splits)
    with Some show ?thesis by blast
  qed
qed

lemma greedy_None: "(\<And>k. lo \<le> k \<Longrightarrow> k \<le> K \<Longrightarrow> f k = None) \<Longrightarrow> greedy f lo K = None"
  by (induction K) auto

lemma greedy_last: "(\<And>k. lo \<le> k \<Longrightarrow> k < K \<Longrightarrow> f k = None) \<Longrightarrow> lo \<le> K \<Longrightarrow> greedy f lo K = f K"
  by (cases K) (auto split: option.splits intro: greedy_None)


subsection \<open>Runs of a class\<close>

lemma run_le: "run ud cl s \<le> length s"
  by (simp add: run_def length_takeWhile_le)

lemma takeWhile_stop': "\<not> P d \<Longrightarrow> takeWhile P (x @ d # r) = takeWhile P x"
  by (induction x) auto

lemma run_stop: "\<not> in_class ud cl d \<Longrightarrow> run ud cl (x @ d # r) = run ud cl x"
  by (simp add: run_def takeWhile_stop')

lemma run_all: "\<forall>c\<in>set x. in_class ud cl c \<Longrightarrow> \<not> in_class ud cl d \<Longrightarrow> run ud cl (x @ d # r) = length x"
  by (simp add: run_def takeWhile_stop' takeWhile_eq_all_conv[THEN iffD2])


lemma prev_of_Nil [simp]: "prev_of prev [] = prev" by (simp add: prev_of_def)
lemma prev_of_Cons [simp]: "prev_of prev (c # x) = prev_of (Some c) x" by (simp add: prev_of_def)
lemma prev_of_append [simp]: "prev_of prev (x @ y) = prev_of (prev_of prev x) y" by (simp add: prev_of_def)

subsection \<open>The length of a match\<close>

lemma rmatch_le: "rmatch ud pat prev s = Some (n, g) \<Longrightarrow> n \<le> length s"
proof (induction pat arbitrary: prev s n g)
  case Nil then show ?case by simp
next
  case (Cons p ps)
  show ?case
  proof (cases p)
    case (Ch c)
    with Cons.prems obtain x xs where s: "s = x # xs" by (cases s) auto
    with Cons.prems Ch obtain m where "rmatch ud ps (Some x) xs = Some (m, g)" "n = Suc m"
      by (auto simp: advance_def split: if_splits)
    with Cons.IH s show ?thesis by fastforce
  next
    case WordB
    with Cons show ?thesis by (auto split: if_splits)
  next
    case (Many0 cl)
    with Cons.prems obtain k where k: "k \<le> run ud cl s" "advance k (rmatch ud ps (prev_of prev (take k s)) (drop k s)) = Some (n, g)"
      by (auto dest!: greedy_Some)
    then obtain m where "rmatch ud ps (prev_of prev (take k s)) (drop k s) = Some (m, g)" "n = k + m"
      by (auto simp: advance_def)
    with Cons.IH[of _ "drop k s" m g] k run_le[of ud cl s] show ?thesis by fastforce
  next
    case (Many1 cl)
    with Cons.prems obtain k where k: "k \<le> run ud cl s" "advance k (rmatch ud ps (prev_of prev (take k s)) (drop k s)) = Some (n, g)"
      by (auto dest!: greedy_Some)
    then obtain m where "rmatch ud ps (prev_of prev (take k s)) (drop k s) = Some (m, g)" "n = k + m"
      by (auto simp: advance_def)
    with Cons.IH[of _ "drop k s" m g] k run_le[of ud cl s] show ?thesis by fastforce
  next
    case (Cap1 cl)
    with Cons.prems obtain k where k: "k \<le> run ud cl s" "capture (take k s) (advance k (rmatch ud ps (prev_of prev (take k s)) (drop k s))) = Some (n, g)"
      by (auto dest!: greedy_Some)
    then obtain m g' where "rmatch ud ps (prev_of prev (take k s)) (drop k s) = Some (m, g')" "n = k + m"
      by (auto simp: advance_def capture_def)
    with Cons.IH[of _ "drop k s" m g'] k run_le[of ud cl s] show ?thesis by fastforce
  qed
qed

lemma rmatch_pos: "Ch c \<in> set pat \<Longrightarrow> rmatch ud pat prev s = Some (n, g) \<Longrightarrow> 0 < n"
proof (induction pat arbitrary: prev s n g)
  case Nil then show ?case by simp
next
  case (Cons p ps)
  show ?case
  proof (cases p)
    case (Ch c')
    with Cons.prems show ?thesis by (cases s) (auto simp: advance_def split: if_splits)
  next
    case WordB
    with Cons show ?thesis by (auto split: if_splits)
  next
    case (Many0 cl)
    with Cons.prems obtain k where "advance k (rmatch ud ps (prev_of prev (take k s)) (drop k s)) = Some (n, g)"
      by (auto dest!: greedy_Some)
    then obtain m where "rmatch ud ps (prev_of prev (take k s)) (drop k s) = Some (m, g)" "n = k + m"
      by (auto simp: advance_def)
    with Cons.IH[of _ "drop k s" m g] Cons.prems Many0 show ?thesis by fastforce
  next
    case (Many1 cl)
    with Cons.prems obtain k where "advance k (rmatch ud ps (prev_of prev (take k s)) (drop k s)) = Some (n, g)"
      by (auto dest!: greedy_Some)
    then obtain m where "rmatch ud ps (prev_of prev (take k s)) (drop k s) = Some (m, g)" "n = k + m"
      by (auto simp: advance_def)
    with Cons.IH[of _ "drop k s" m g] Cons.prems Many1 show ?thesis by fastforce
  next
    case (Cap1 cl)
    with Cons.prems obtain k where "capture (take k s) (advance k (rmatch ud ps (prev_of prev (take k s)) (drop k s))) = Some (n, g)"
      by (auto dest!: greedy_Some)
    then obtain m g' where "rmatch ud ps (prev_of prev (take k s)) (drop k s) = Some (m, g')" "n = k + m"
      by (auto simp: advance_def capture_def)
    with Cons.IH[of _ "drop k s" m g'] Cons.prems Cap1 show ?thesis by fastforce
  qed
qed

lemma rmatch_Nil: "Ch c0 \<in> set pat \<Longrightarrow> rmatch ud pat prev [] = None"
proof (cases "rmatch ud pat prev []")
  case (Some r)
  assume lit: "Ch c0 \<in> set pat"
  obtain n g where "r = (n, g)" by (cases r)
  with Some rmatch_pos[OF lit, of ud prev "[]" n g] rmatch_le[of ud pat prev "[]" n g]
  show ?thesis by simp
qed simp

subsection \<open>Characters that a pattern cannot read\<close>

text \<open>
  If no item reads the last character of \<open>x @ [e]\<close>, the matcher never gets behind it,
  so what follows does not matter.  If no item reads \<open>d\<close>, and \<open>d\<close> is no word character
  where the pattern has a \<^verbatim>\<open>\b\<close>, the text from \<open>d\<close> on is as good as the end of input.
\<close>

lemma rmatch_blocked_last:
  "\<forall>it\<in>set pat. \<not> accepts ud it e \<Longrightarrow>
   rmatch ud pat p (x @ e # rest) = rmatch ud pat p (x @ [e])"
proof (induction pat arbitrary: p x)
  case Nil then show ?case by simp
next
  case (Cons it pat)
  then have IH: "\<And>p x. rmatch ud pat p (x @ e # rest) = rmatch ud pat p (x @ [e])" by simp
  show ?case
  proof (cases it)
    case (Ch c)
    with Cons.prems IH show ?thesis by (cases x) auto
  next
    case WordB
    have "at_boundary ud p (x @ e # rest) = at_boundary ud p (x @ [e])"
      by (cases x) (auto simp: at_boundary_def)
    with WordB IH show ?thesis by simp
  next
    case (Many0 cl)
    with Cons.prems have ne: "\<not> in_class ud cl e" by simp
    have r: "run ud cl (x @ e # rest) = run ud cl x" "run ud cl (x @ [e]) = run ud cl x"
      using ne by (simp_all add: run_stop)
    have "greedy (\<lambda>k. advance k (rmatch ud pat (prev_of p (take k (x @ e # rest))) (drop k (x @ e # rest)))) 0 (run ud cl x)
        = greedy (\<lambda>k. advance k (rmatch ud pat (prev_of p (take k (x @ [e]))) (drop k (x @ [e])))) 0 (run ud cl x)"
      by (rule greedy_cong_le) (use run_le[of ud cl x] IH in auto)
    with Many0 r show ?thesis by simp
  next
    case (Many1 cl)
    with Cons.prems have ne: "\<not> in_class ud cl e" by simp
    have r: "run ud cl (x @ e # rest) = run ud cl x" "run ud cl (x @ [e]) = run ud cl x"
      using ne by (simp_all add: run_stop)
    have "greedy (\<lambda>k. advance k (rmatch ud pat (prev_of p (take k (x @ e # rest))) (drop k (x @ e # rest)))) 1 (run ud cl x)
        = greedy (\<lambda>k. advance k (rmatch ud pat (prev_of p (take k (x @ [e]))) (drop k (x @ [e])))) 1 (run ud cl x)"
      by (rule greedy_cong_le) (use run_le[of ud cl x] IH in auto)
    with Many1 r show ?thesis by simp
  next
    case (Cap1 cl)
    with Cons.prems have ne: "\<not> in_class ud cl e" by simp
    have r: "run ud cl (x @ e # rest) = run ud cl x" "run ud cl (x @ [e]) = run ud cl x"
      using ne by (simp_all add: run_stop)
    have "greedy (\<lambda>k. capture (take k (x @ e # rest)) (advance k (rmatch ud pat (prev_of p (take k (x @ e # rest))) (drop k (x @ e # rest))))) 1 (run ud cl x)
        = greedy (\<lambda>k. capture (take k (x @ [e])) (advance k (rmatch ud pat (prev_of p (take k (x @ [e]))) (drop k (x @ [e]))))) 1 (run ud cl x)"
      by (rule greedy_cong_le) (use run_le[of ud cl x] IH in auto)
    with Cap1 r show ?thesis by simp
  qed
qed

lemma rmatch_blocked_first:
  "\<forall>it\<in>set pat. \<not> accepts ud it d \<Longrightarrow> (WordB \<in> set pat \<Longrightarrow> \<not> in_class ud Word d) \<Longrightarrow>
   rmatch ud pat p (x @ d # rest) = rmatch ud pat p x"
proof (induction pat arbitrary: p x)
  case Nil then show ?case by simp
next
  case (Cons it pat)
  then have IH: "\<And>p x. rmatch ud pat p (x @ d # rest) = rmatch ud pat p x" by simp
  show ?case
  proof (cases it)
    case (Ch c)
    with Cons.prems IH show ?thesis by (cases x) auto
  next
    case WordB
    with Cons.prems have "\<not> in_class ud Word d" by simp
    then have "at_boundary ud p (x @ d # rest) = at_boundary ud p x"
      by (cases x) (auto simp: at_boundary_def)
    with WordB IH show ?thesis by simp
  next
    case (Many0 cl)
    with Cons.prems have ne: "\<not> in_class ud cl d" by simp
    have r: "run ud cl (x @ d # rest) = run ud cl x"
      using ne by (simp_all add: run_stop)
    have "greedy (\<lambda>k. advance k (rmatch ud pat (prev_of p (take k (x @ d # rest))) (drop k (x @ d # rest)))) 0 (run ud cl x)
        = greedy (\<lambda>k. advance k (rmatch ud pat (prev_of p (take k x)) (drop k x))) 0 (run ud cl x)"
      by (rule greedy_cong_le) (use run_le[of ud cl x] IH in auto)
    with Many0 r show ?thesis by simp
  next
    case (Many1 cl)
    with Cons.prems have ne: "\<not> in_class ud cl d" by simp
    have r: "run ud cl (x @ d # rest) = run ud cl x"
      using ne by (simp_all add: run_stop)
    have "greedy (\<lambda>k. advance k (rmatch ud pat (prev_of p (take k (x @ d # rest))) (drop k (x @ d # rest)))) 1 (run ud cl x)
        = greedy (\<lambda>k. advance k (rmatch ud pat (prev_of p (take k x)) (drop k x))) 1 (run ud cl x)"
      by (rule greedy_cong_le) (use run_le[of ud cl x] IH in auto)
    with Many1 r show ?thesis by simp
  next
    case (Cap1 cl)
    with Cons.prems have ne: "\<not> in_class ud cl d" by simp
    have r: "run ud cl (x @ d # rest) = run ud cl x"
      using ne by (simp_all add: run_stop)
    have "greedy (\<lambda>k. capture (take k (x @ d # rest)) (advance k (rmatch ud pat (prev_of p (take k (x @ d # rest))) (drop k (x @ d # rest))))) 1 (run ud cl x)
        = greedy (\<lambda>k. capture (take k x) (advance k (rmatch ud pat (prev_of p (take k x)) (drop k x)))) 1 (run ud cl x)"
      by (rule greedy_cong_le) (use run_le[of ud cl x] IH in auto)
    with Cap1 r show ?thesis by simp
  qed
qed

lemma rmatch_head_only:
  assumes "\<forall>it\<in>set pat. \<not> accepts ud it d" "WordB \<in> set pat \<Longrightarrow> \<not> in_class ud Word d"
  shows "rmatch ud (Ch c0 # pat) p (c # b @ d # rest) = rmatch ud (Ch c0 # pat) p (c # b)"
  using rmatch_blocked_first[OF assms, of "Some c" b rest] by auto

lemma rmatch_prev_Ch: "rmatch ud (Ch c # ps) p s = rmatch ud (Ch c # ps) p' s"
  by simp


subsection \<open>A repetition that reads a whole run\<close>


lemma rmatch_Many0_run:
  assumes "run ud cl (sp @ rest) = length sp"
    and "rmatch ud ps (prev_of p sp) rest = Some (n, g)"
  shows "rmatch ud (Many0 cl # ps) p (sp @ rest) = Some (length sp + n, g)"
proof -
  have "greedy (\<lambda>k. advance k (rmatch ud ps (prev_of p (take k (sp @ rest))) (drop k (sp @ rest)))) 0 (length sp)
        = Some (length sp + n, g)"
    by (rule greedy_first) (use assms in \<open>simp_all add: advance_def\<close>)
  with assms show ?thesis by simp
qed


lemma rmatch_Ch_here:
  "rmatch ud ps (Some c) s = Some (n, g) \<Longrightarrow> rmatch ud (Ch c # ps) p (c # s) = Some (Suc n, g)"
  by (simp add: advance_def)


section \<open>Facts about the scan\<close>

lemma sub_from_Nil: "Ch c0 \<in> set pat \<Longrightarrow> sub_from ud pat repl prev [] = []"
  by (simp add: rmatch_Nil)

lemma sub_from_Cons: "Ch c0 \<in> set pat \<Longrightarrow> sub_from ud pat repl prev (c # cs) =
     (case rmatch ud pat prev (c # cs) of
        None \<Rightarrow> c # sub_from ud pat repl (Some c) cs
      | Some (n, g) \<Rightarrow> expand repl g @
               sub_from ud pat repl (prev_of prev (take n (c # cs))) (drop n (c # cs)))"
  by (auto split: option.splits dest: rmatch_pos)

lemma sub_from_match:
  assumes "Ch c0 \<in> set pat" "rmatch ud pat prev s = Some (n, g)"
  shows "sub_from ud pat repl prev s = expand repl g @ sub_from ud pat repl (prev_of prev (take n s)) (drop n s)"
proof -
  from assms have n: "0 < n" "n \<le> length s" by (auto dest: rmatch_pos rmatch_le)
  then obtain c cs where s: "s = c # cs" by (cases s) auto
  with assms show ?thesis by (simp add: sub_from_Cons del: sub_from.simps)
qed

lemma sub_from_skip:
  assumes "\<And>a c b. x = a @ c # b \<Longrightarrow> rmatch ud pat (prev_of prev a) (c # b @ rest) = None"
  shows "sub_from ud pat repl prev (x @ rest) = x @ sub_from ud pat repl (prev_of prev x) rest"
  using assms
proof (induction x arbitrary: prev)
  case Nil then show ?case by simp
next
  case (Cons c x)
  from Cons.prems[of "[]" c x] have "rmatch ud pat prev (c # x @ rest) = None" by simp
  moreover have "sub_from ud pat repl (Some c) (x @ rest) = x @ sub_from ud pat repl (prev_of (Some c) x) rest"
  proof (rule Cons.IH)
    fix a c' b assume "x = a @ c' # b"
    then have "c # x = (c # a) @ c' # b" by simp
    from Cons.prems[OF this] show "rmatch ud pat (prev_of (Some c) a) (c' # b @ rest) = None" by simp
  qed
  ultimately show ?case by simp
qed

lemma sub_from_append:
  assumes lit: "Ch c0 \<in> set pat"
    and loc: "\<And>a c b. pre = a @ c # b \<Longrightarrow>
               rmatch ud pat (prev_of prev a) (c # b @ rest) = rmatch ud pat (prev_of prev a) (c # b)"
  shows "sub_from ud pat repl prev (pre @ rest) =
         sub_from ud pat repl prev pre @ sub_from ud pat repl (prev_of prev pre) rest"
  using loc
proof (induction pre arbitrary: prev rule: length_induct)
  case (1 pre)
  show ?case
  proof (cases pre)
    case Nil
    then show ?thesis by (simp add: sub_from_Nil[OF lit] del: sub_from.simps)
  next
    case (Cons c cs)
    from "1.prems"[of "[]" c cs] Cons
    have eq: "rmatch ud pat prev (c # cs @ rest) = rmatch ud pat prev (c # cs)" by simp
    show ?thesis
    proof (cases "rmatch ud pat prev (c # cs)")
      case None
      have "sub_from ud pat repl (Some c) (cs @ rest) =
            sub_from ud pat repl (Some c) cs @ sub_from ud pat repl (prev_of (Some c) cs) rest"
      proof (rule "1.IH"[rule_format])
        show "length cs < length pre" using Cons by simp
      next
        fix a c' b assume "cs = a @ c' # b"
        then have "pre = (c # a) @ c' # b" using Cons by simp
        from "1.prems"[OF this]
        show "rmatch ud pat (prev_of (Some c) a) (c' # b @ rest) = rmatch ud pat (prev_of (Some c) a) (c' # b)"
          by simp
      qed
      with None eq Cons show ?thesis by (simp add: sub_from_Cons[OF lit] del: sub_from.simps)
    next
      case (Some r)
      obtain n g where r: "r = (n, g)" by (cases r)
      from Some r have n: "0 < n" "n \<le> length (c # cs)"
        using rmatch_pos[OF lit] rmatch_le by blast+
      let ?p' = "prev_of prev (take n (c # cs))"
      have tk: "take n (c # cs @ rest) = take n (c # cs)" "drop n (c # cs @ rest) = drop n (c # cs) @ rest"
        using n by (simp_all add: take_Cons' drop_Cons')
      have split: "pre = take n (c # cs) @ drop n (c # cs)" using Cons by simp
      have "sub_from ud pat repl ?p' (drop n (c # cs) @ rest) =
            sub_from ud pat repl ?p' (drop n (c # cs)) @
            sub_from ud pat repl (prev_of ?p' (drop n (c # cs))) rest"
      proof (rule "1.IH"[rule_format])
        show "length (drop n (c # cs)) < length pre" using Cons n by simp
      next
        fix a c' b assume d: "drop n (c # cs) = a @ c' # b"
        with split have "pre = (take n (c # cs) @ a) @ c' # b" by simp
        from "1.prems"[OF this]
        show "rmatch ud pat (prev_of ?p' a) (c' # b @ rest) = rmatch ud pat (prev_of ?p' a) (c' # b)"
          by simp
      qed
      moreover have "prev_of ?p' (drop n (c # cs)) = prev_of prev pre"
        using split by (metis prev_of_append)
      ultimately show ?thesis using Some r eq Cons tk
        by (simp add: sub_from_Cons[OF lit] del: sub_from.simps)
    qed
  qed
qed

lemma sub_from_prev:
  assumes lit: "Ch c0 \<in> set pat"
    and ind: "\<And>p p' s. rmatch ud pat p s = rmatch ud pat p' s"
  shows "sub_from ud pat repl p s = sub_from ud pat repl p' s"
proof (induction s arbitrary: p p' rule: length_induct)
  case (1 s)
  show ?case
  proof (cases s)
    case Nil then show ?thesis by (simp add: sub_from_Nil[OF lit] del: sub_from.simps)
  next
    case (Cons c cs)
    show ?thesis
    proof (cases "rmatch ud pat p (c # cs)")
      case None
      with ind[of p "c # cs" p'] Cons show ?thesis by (simp add: sub_from_Cons[OF lit] del: sub_from.simps)
    next
      case (Some r)
      obtain n g where r: "r = (n, g)" by (cases r)
      from Some r have n: "0 < n" "n \<le> length (c # cs)"
        using rmatch_pos[OF lit] rmatch_le by blast+
      then have "take n (c # cs) \<noteq> []" by simp
      then have pp: "prev_of p (take n (c # cs)) = prev_of p' (take n (c # cs))" by (simp add: prev_of_def)
      from Some r ind[of p' "c # cs" p] have "rmatch ud pat p' (c # cs) = Some (n, g)" by simp
      with Some r Cons pp show ?thesis by (simp add: sub_from_Cons[OF lit] del: sub_from.simps)
    qed
  qed
qed

lemma found_from_id: "\<not> found_from ud pat prev s \<Longrightarrow> sub_from ud pat repl prev s = s"
  by (induction s arbitrary: prev) (auto split: option.splits)

lemma not_found_id: "\<not> found ud pat s \<Longrightarrow> re_sub ud pat repl s = s"
  by (simp add: found_def re_sub_def found_from_id)

text \<open>
  The rewriting of one occurrence \<open>M\<close> of a pattern between \<open>pre\<close> and \<open>post\<close>: no match
  that starts in \<open>pre\<close> reaches into \<open>M\<close>, the pattern matches all of \<open>M\<close>, and the scan
  of \<open>post\<close> does not depend on what stood before it.
\<close>

lemma re_sub_occurrence:
  assumes lit: "Ch c0 \<in> set pat"
    and loc: "\<And>a c b. pre = a @ c # b \<Longrightarrow>
               rmatch ud pat (prev_of None a) (c # b @ M @ post) = rmatch ud pat (prev_of None a) (c # b)"
    and here: "rmatch ud pat (prev_of None pre) (M @ post) = Some (length M, g)"
    and ctx: "sub_from ud pat repl (prev_of (prev_of None pre) M) post = sub_from ud pat repl None post"
  shows "re_sub ud pat repl (pre @ M @ post) =
         re_sub ud pat repl pre @ expand repl g @ re_sub ud pat repl post"
proof -
  have "sub_from ud pat repl None (pre @ (M @ post))
      = sub_from ud pat repl None pre @ sub_from ud pat repl (prev_of None pre) (M @ post)"
    by (rule sub_from_append[OF lit]) (rule loc)
  moreover have "sub_from ud pat repl (prev_of None pre) (M @ post)
      = expand repl g @ sub_from ud pat repl (prev_of (prev_of None pre) M) post"
    using sub_from_match[OF lit here, of repl] by simp
  ultimately show ?thesis using ctx by (simp add: re_sub_def)
qed

lemma sub_from_prev_here:
  assumes lit: "Ch c0 \<in> set pat" and eq: "rmatch ud pat p s = rmatch ud pat p' s"
  shows "sub_from ud pat repl p s = sub_from ud pat repl p' s"
proof (cases s)
  case Nil then show ?thesis by (simp add: sub_from_Nil[OF lit] del: sub_from.simps)
next
  case (Cons c cs)
  show ?thesis
  proof (cases "rmatch ud pat p (c # cs)")
    case None
    with eq Cons show ?thesis by (simp add: sub_from_Cons[OF lit] del: sub_from.simps)
  next
    case (Some r)
    obtain n g where r: "r = (n, g)" by (cases r)
    from Some r have m: "rmatch ud pat p (c # cs) = Some (n, g)" by simp
    with eq Cons have m': "rmatch ud pat p' (c # cs) = Some (n, g)" by simp
    from m have "0 < n" using rmatch_pos[OF lit] by blast
    then have "take n (c # cs) \<noteq> []" by simp
    then have "prev_of p (take n (c # cs)) = prev_of p' (take n (c # cs))" by (simp add: prev_of_def)
    with m m' Cons show ?thesis by (simp add: sub_from_Cons[OF lit] del: sub_from.simps)
  qed
qed



section \<open>Facts about fix_file and the loop\<close>

lemmas io_defs = fix_file_def files_def store_def print_def Let_def

lemma fix_file_stdout_err: "fix_file ud p w = (r, w') \<Longrightarrow> stdout_err w' = stdout_err w"
  by (auto simp: io_defs split: node.splits option.splits if_splits prod.splits sum.splits)

lemma fix_file_stdout: "fix_file ud p w = (r, w') \<Longrightarrow> \<exists>ls. stdout w' = stdout w @ ls"
  by (auto simp: io_defs split: node.splits option.splits if_splits prod.splits sum.splits)

lemma print_eq:
  "print line w = Inl e \<longleftrightarrow> stdout_err w (stdout w) line = Some e"
  "print line w = Inr w' \<longleftrightarrow> stdout_err w (stdout w) line = None \<and> w' = w\<lparr>stdout := stdout w @ [line]\<rparr>"
  by (auto simp: print_def split: option.splits)

lemma main_append:
  "main ud (ps @ qs) w =
     (case main ud ps w of (None, w1) \<Rightarrow> main ud qs w1 | (Some e, w1) \<Rightarrow> (Some e, w1))"
  by (induction ps arbitrary: w) (auto split: prod.splits option.splits sum.splits)

lemma main_stdout_err: "stdout_err (snd (main ud ps w)) = stdout_err w"
proof (induction ps arbitrary: w)
  case Nil then show ?case by simp
next
  case (Cons p ps)
  obtain r w' where f: "fix_file ud p w = (r, w')" by (cases "fix_file ud p w")
  then have e: "stdout_err w' = stdout_err w" by (rule fix_file_stdout_err)
  show ?case
  proof (cases r)
    case None
    with Cons.IH[of w'] f e show ?thesis by simp
  next
    case (Some x)
    show ?thesis
    proof (cases "print (''Error fixing '' @ p @ '': '' @ message x) w'")
      case (Inl e') with f Some e show ?thesis by simp
    next
      case (Inr w'')
      then have "stdout_err w'' = stdout_err w'" by (auto simp: print_eq)
      with Cons.IH[of w''] f Some e Inr show ?thesis by simp
    qed
  qed
qed

lemma main_stdout_grows: "\<exists>ls. stdout (snd (main ud ps w)) = stdout w @ ls"
proof (induction ps arbitrary: w)
  case Nil then show ?case by simp
next
  case (Cons p ps)
  obtain r w' where f: "fix_file ud p w = (r, w')" by (cases "fix_file ud p w")
  then obtain ls where ls: "stdout w' = stdout w @ ls" by (auto dest: fix_file_stdout)
  show ?case
  proof (cases r)
    case None
    with Cons.IH[of w'] f ls show ?thesis by auto
  next
    case (Some x)
    show ?thesis
    proof (cases "print (''Error fixing '' @ p @ '': '' @ message x) w'")
      case (Inl e') with f Some ls show ?thesis by simp
    next
      case (Inr w'')
      then have "stdout w'' = stdout w' @ [''Error fixing '' @ p @ '': '' @ message x]"
        by (auto simp: print_eq)
      with Cons.IH[of w''] f Some ls Inr show ?thesis by auto
    qed
  qed
qed

lemma main_runs_through:
  "\<forall>out line. stdout_err w out line = None \<Longrightarrow> fst (main ud ps w) = None"
proof (induction ps arbitrary: w)
  case Nil then show ?case by simp
next
  case (Cons p ps)
  obtain r w' where f: "fix_file ud p w = (r, w')" by (cases "fix_file ud p w")
  then have e: "stdout_err w' = stdout_err w" by (rule fix_file_stdout_err)
  show ?case
  proof (cases r)
    case None
    with Cons.IH[of w'] Cons.prems f e show ?thesis by simp
  next
    case (Some x)
    let ?line = "''Error fixing '' @ p @ '': '' @ message x"
    have "print ?line w' = Inr (w'\<lparr>stdout := stdout w' @ [?line]\<rparr>)"
      using Cons.prems e by (simp add: print_def)
    with Cons.IH[of "w'\<lparr>stdout := stdout w' @ [?line]\<rparr>"] Cons.prems f e Some
    show ?thesis by simp
  qed
qed

lemma no_pattern_fix_text:
  "\<forall>pat\<in>set patterns. \<not> found ud pat content \<Longrightarrow> fix_text ud content = content"
  by (simp add: patterns_def fix_text_def not_found_id)


section \<open>Matches and the characters they read\<close>

subsection \<open>One item of a pattern\<close>

lemma run_take: "k \<le> run ud cl s \<Longrightarrow> \<forall>c\<in>set (take k s). in_class ud cl c"
proof (induction s arbitrary: k)
  case Nil then show ?case by simp
next
  case (Cons x xs)
  show ?case
  proof (cases k)
    case 0 then show ?thesis by simp
  next
    case (Suc j)
    with Cons.prems have "in_class ud cl x" "j \<le> run ud cl xs"
      by (auto simp: run_def split: if_splits)
    with Cons.IH[of j] Suc show ?thesis by simp
  qed
qed

lemma rmatch_item:
  assumes "rmatch ud (it # ps) p s = Some (n, g)"
  obtains k m g' where "k \<le> length s" "n = k + m"
    "rmatch ud ps (prev_of p (take k s)) (drop k s) = Some (m, g')"
    "\<forall>c\<in>set (take k s). accepts ud it c"
    "it = WordB \<longrightarrow> k = 0"
    "\<forall>c. it = Ch c \<longrightarrow> k = 1 \<and> s \<noteq> [] \<and> hd s = c"
proof (cases it)
  case (Ch c)
  with assms obtain xs where s: "s = c # xs" by (cases s) (auto split: if_splits)
  with assms Ch obtain m where "rmatch ud ps (Some c) xs = Some (m, g)" "n = Suc m"
    by (auto simp: advance_def)
  with s Ch that[of 1 m g] show ?thesis by simp
next
  case WordB
  with assms have "rmatch ud ps p s = Some (n, g)" by (auto split: if_splits)
  with WordB that[of 0 n g] show ?thesis by simp
next
  case (Many0 cl)
  with assms obtain k where k: "k \<le> run ud cl s"
      "advance k (rmatch ud ps (prev_of p (take k s)) (drop k s)) = Some (n, g)"
    by (auto dest!: greedy_Some)
  then obtain m where "rmatch ud ps (prev_of p (take k s)) (drop k s) = Some (m, g)" "n = k + m"
    by (auto simp: advance_def)
  with k Many0 run_le[of ud cl s] run_take[OF k(1)] that[of k m g] show ?thesis by simp
next
  case (Many1 cl)
  with assms obtain k where k: "k \<le> run ud cl s"
      "advance k (rmatch ud ps (prev_of p (take k s)) (drop k s)) = Some (n, g)"
    by (auto dest!: greedy_Some)
  then obtain m where "rmatch ud ps (prev_of p (take k s)) (drop k s) = Some (m, g)" "n = k + m"
    by (auto simp: advance_def)
  with k Many1 run_le[of ud cl s] run_take[OF k(1)] that[of k m g] show ?thesis by simp
next
  case (Cap1 cl)
  with assms obtain k where k: "k \<le> run ud cl s"
      "capture (take k s) (advance k (rmatch ud ps (prev_of p (take k s)) (drop k s))) = Some (n, g)"
    by (auto dest!: greedy_Some)
  then obtain m g' where "rmatch ud ps (prev_of p (take k s)) (drop k s) = Some (m, g')" "n = k + m"
    by (auto simp: advance_def capture_def)
  with k Cap1 run_le[of ud cl s] run_take[OF k(1)] that[of k m g'] show ?thesis by simp
qed

lemma rmatch_accepted:
  "rmatch ud pat p s = Some (n, g) \<Longrightarrow> \<forall>c\<in>set (take n s). \<exists>it\<in>set pat. accepts ud it c"
proof (induction pat arbitrary: p s n g)
  case Nil then show ?case by simp
next
  case (Cons it ps)
  obtain k m g' where k: "n = k + m"
      "rmatch ud ps (prev_of p (take k s)) (drop k s) = Some (m, g')"
      "\<forall>c\<in>set (take k s). accepts ud it c"
    by (rule rmatch_item[OF Cons.prems]) blast
  have "take n s = take k s @ take m (drop k s)" using k(1) by (simp add: take_add)
  with Cons.IH[OF k(2)] k(3) show ?case by auto
qed

lemma rmatch_contains:
  "Ch c \<in> set pat \<Longrightarrow> rmatch ud pat p s = Some (n, g) \<Longrightarrow> c \<in> set (take n s)"
proof (induction pat arbitrary: p s n g)
  case Nil then show ?case by simp
next
  case (Cons it ps)
  obtain k m g' where k: "n = k + m"
      "rmatch ud ps (prev_of p (take k s)) (drop k s) = Some (m, g')"
      "\<forall>c. it = Ch c \<longrightarrow> k = 1 \<and> s \<noteq> [] \<and> hd s = c"
    by (rule rmatch_item[OF Cons.prems(2)]) blast
  have tk: "take n s = take k s @ take m (drop k s)" using k(1) by (simp add: take_add)
  show ?case
  proof (cases "it = Ch c")
    case True
    with k(3) have "k = 1" "s \<noteq> []" "hd s = c" by simp_all
    then have "c \<in> set (take k s)" by (cases s) auto
    with tk show ?thesis by simp
  next
    case False
    with Cons.prems(1) have "Ch c \<in> set ps" by simp
    from Cons.IH[OF this k(2)] tk show ?thesis by simp
  qed
qed

lemma rmatch_only_boundaries:
  "set bs \<subseteq> {WordB} \<Longrightarrow> rmatch ud bs q s = Some (m, g) \<Longrightarrow> m = 0"
  by (induction bs arbitrary: q s) (auto split: if_splits)

lemma rmatch_last:
  "rmatch ud (ps @ Ch c # bs) p s = Some (n, g) \<Longrightarrow> set bs \<subseteq> {WordB} \<Longrightarrow>
   0 < n \<and> n \<le> length s \<and> s ! (n - 1) = c"
proof (induction ps arbitrary: p s n g)
  case Nil
  from Nil.prems(1) have "rmatch ud (Ch c # bs) p s = Some (n, g)" by simp
  then obtain k m g' where k: "n = k + m"
      "rmatch ud bs (prev_of p (take k s)) (drop k s) = Some (m, g')"
      "\<forall>c'. Ch c = Ch c' \<longrightarrow> k = 1 \<and> s \<noteq> [] \<and> hd s = c'"
    by (rule rmatch_item) blast
  from k(3) have "k = 1" "s \<noteq> []" "hd s = c" by simp_all
  moreover from rmatch_only_boundaries[OF Nil.prems(2) k(2)] have "m = 0" .
  ultimately show ?case using k(1) by (cases s) auto
next
  case (Cons it ps)
  from Cons.prems(1) have "rmatch ud (it # (ps @ Ch c # bs)) p s = Some (n, g)" by simp
  then obtain k m g' where k: "k \<le> length s" "n = k + m"
      "rmatch ud (ps @ Ch c # bs) (prev_of p (take k s)) (drop k s) = Some (m, g')"
    by (rule rmatch_item) blast
  from Cons.IH[OF k(3) Cons.prems(2)] have m: "0 < m" "m \<le> length (drop k s)" "drop k s ! (m - 1) = c"
    by simp_all
  then have "k + (m - 1) < length s" using k(1) by simp
  then have "s ! (k + (m - 1)) = c" using m(3) k(1) by simp
  moreover have "k + (m - 1) = n - 1" using m(1) k(2) by simp
  ultimately show ?case using m k by simp
qed


subsection \<open>The character before a match\<close>

lemma rmatch_prev_class:
  "(WordB \<in> set pat \<longrightarrow> is_word_opt ud p = is_word_opt ud p') \<Longrightarrow>
   rmatch ud pat p s = rmatch ud pat p' s"
proof (induction pat arbitrary: p p' s)
  case Nil then show ?case by simp
next
  case (Cons it ps)
  have rest: "\<And>k. rmatch ud ps (prev_of p (take k s)) (drop k s) = rmatch ud ps (prev_of p' (take k s)) (drop k s)"
  proof -
    fix k
    show "rmatch ud ps (prev_of p (take k s)) (drop k s) = rmatch ud ps (prev_of p' (take k s)) (drop k s)"
    proof (cases "take k s = []")
      case True
      then have a: "prev_of p (take k s) = p" "prev_of p' (take k s) = p'"
        by (simp_all add: prev_of_def)
      have "rmatch ud ps p (drop k s) = rmatch ud ps p' (drop k s)"
        by (rule Cons.IH) (use Cons.prems in simp)
      then show ?thesis by (simp only: a)
    next
      case False
      then have "prev_of p (take k s) = prev_of p' (take k s)" by (simp add: prev_of_def)
      then show ?thesis by simp
    qed
  qed
  show ?case
  proof (cases it)
    case (Ch c) then show ?thesis by simp
  next
    case WordB
    with Cons.prems have "at_boundary ud p s = at_boundary ud p' s" by (simp add: at_boundary_def)
    with WordB rest[of 0] show ?thesis by simp
  next
    case (Many0 cl) with rest show ?thesis by simp
  next
    case (Many1 cl) with rest show ?thesis by simp
  next
    case (Cap1 cl) with rest show ?thesis by simp
  qed
qed

lemma sub_from_prev_class:
  assumes lit: "Ch c0 \<in> set pat"
    and cl: "WordB \<in> set pat \<longrightarrow> is_word_opt ud p = is_word_opt ud p'"
  shows "sub_from ud pat repl p s = sub_from ud pat repl p' s"
  by (rule sub_from_prev_here[OF lit]) (rule rmatch_prev_class[OF cl])

subsection \<open>Cutting the scan at a character that the pattern cannot read\<close>

lemma sub_from_cut_last:
  assumes lit: "Ch c0 \<in> set pat" and e: "\<forall>it\<in>set pat. \<not> accepts ud it e"
  shows "sub_from ud pat repl p (x @ e # rest) =
         sub_from ud pat repl p (x @ [e]) @ sub_from ud pat repl (Some e) rest"
proof -
  have "sub_from ud pat repl p ((x @ [e]) @ rest) =
        sub_from ud pat repl p (x @ [e]) @ sub_from ud pat repl (prev_of p (x @ [e])) rest"
  proof (rule sub_from_append[OF lit])
    fix a c b assume "x @ [e] = a @ c # b"
    then obtain y where cb: "c # b = y @ [e]"
      by (metis append_butlast_last_id last_appendR last_snoc list.distinct(1))
    have "rmatch ud pat (prev_of p a) (y @ e # rest) = rmatch ud pat (prev_of p a) (y @ [e])"
      by (rule rmatch_blocked_last[OF e])
    moreover have "c # b @ rest = y @ e # rest" using cb by (metis append_Cons append_Nil append_assoc)
    ultimately show "rmatch ud pat (prev_of p a) (c # b @ rest) = rmatch ud pat (prev_of p a) (c # b)"
      using cb by (simp only:)
  qed
  then show ?thesis by simp
qed

lemma sub_from_cut_first:
  assumes lit: "Ch c0 \<in> set pat" and d: "\<forall>it\<in>set pat. \<not> accepts ud it d"
    and w: "WordB \<in> set pat \<Longrightarrow> \<not> in_class ud Word d"
  shows "sub_from ud pat repl p (x @ d # rest) =
         sub_from ud pat repl p x @ sub_from ud pat repl (prev_of p x) (d # rest)"
proof (rule sub_from_append[OF lit])
  fix a c b assume "x = a @ c # b"
  have "rmatch ud pat (prev_of p a) ((c # b) @ d # rest) = rmatch ud pat (prev_of p a) (c # b)"
    by (rule rmatch_blocked_first[OF d w])
  then show "rmatch ud pat (prev_of p a) (c # b @ d # rest) = rmatch ud pat (prev_of p a) (c # b)"
    by simp
qed

subsection \<open>A text that no match reaches\<close>

text \<open>
  If no match that starts in \<open>x\<close> reaches into \<open>t\<close>, the scan of \<open>x @ t\<close> arrives at the
  start of \<open>t\<close>.  The last character of its output so far is of the kind \<open>f\<close> of the last
  character of \<open>x\<close>, if every replacement ends in a character of the kind of the last
  character of its match.
\<close>

lemma keep_scan:
  assumes lit: "Ch c0 \<in> set pat"
    and kind: "\<And>q s n g. rmatch ud pat q s = Some (n, g) \<Longrightarrow>
                 expand repl g \<noteq> [] \<and> f (last (expand repl g)) = f (s ! (n - 1))"
    and ends: "\<And>a b n g. x = a @ b \<Longrightarrow> b \<noteq> [] \<Longrightarrow>
                 rmatch ud pat (prev_of p a) (b @ t) = Some (n, g) \<Longrightarrow> n \<le> length b"
  shows "\<exists>X. sub_from ud pat repl p (x @ t) = X @ sub_from ud pat repl (prev_of p x) t \<and>
             (X = [] \<longleftrightarrow> x = []) \<and> (x \<noteq> [] \<longrightarrow> f (last X) = f (last x))"
  using ends
proof (induction x arbitrary: p rule: length_induct)
  case (1 x)
  show ?case
  proof (cases x)
    case Nil then show ?thesis by simp
  next
    case (Cons c cs)
    show ?thesis
    proof (cases "rmatch ud pat p (c # cs @ t)")
      case None
      have "\<exists>X. sub_from ud pat repl (Some c) (cs @ t) = X @ sub_from ud pat repl (prev_of (Some c) cs) t \<and>
             (X = [] \<longleftrightarrow> cs = []) \<and> (cs \<noteq> [] \<longrightarrow> f (last X) = f (last cs))"
      proof (rule "1.IH"[rule_format])
        show "length cs < length x" using Cons by simp
      next
        fix a b n g assume "cs = a @ b" "b \<noteq> []"
          "rmatch ud pat (prev_of (Some c) a) (b @ t) = Some (n, g)"
        with "1.prems"[of "c # a" b n g] Cons show "n \<le> length b" by simp
      qed
      then obtain X where X: "sub_from ud pat repl (Some c) (cs @ t) = X @ sub_from ud pat repl (prev_of (Some c) cs) t"
          "X = [] \<longleftrightarrow> cs = []" "cs \<noteq> [] \<longrightarrow> f (last X) = f (last cs)" by blast
      have "sub_from ud pat repl p (x @ t) = (c # X) @ sub_from ud pat repl (prev_of p x) t"
        using None X(1) Cons by (simp add: sub_from_Cons[OF lit] del: sub_from.simps)
      moreover have "x \<noteq> [] \<longrightarrow> f (last (c # X)) = f (last x)" using X(2,3) Cons by auto
      ultimately show ?thesis using Cons by blast
    next
      case (Some r)
      obtain n g where r: "r = (n, g)" by (cases r)
      with Some have m: "rmatch ud pat p (x @ t) = Some (n, g)" using Cons by simp
      from "1.prems"[of "[]" x n g] m Cons have n: "n \<le> length x" by simp
      from m have pos: "0 < n" using rmatch_pos[OF lit] by blast
      let ?p' = "prev_of p (take n x)"
      let ?x' = "drop n x"
      have tk: "take n (x @ t) = take n x" "drop n (x @ t) = ?x' @ t" using n by simp_all
      have "\<exists>X. sub_from ud pat repl ?p' (?x' @ t) = X @ sub_from ud pat repl (prev_of ?p' ?x') t \<and>
             (X = [] \<longleftrightarrow> ?x' = []) \<and> (?x' \<noteq> [] \<longrightarrow> f (last X) = f (last ?x'))"
      proof (rule "1.IH"[rule_format])
        show "length ?x' < length x" using pos Cons by simp
      next
        fix a b n' g' assume ab: "?x' = a @ b" "b \<noteq> []"
          "rmatch ud pat (prev_of ?p' a) (b @ t) = Some (n', g')"
        have "x = (take n x @ a) @ b" using ab(1) by (metis append_assoc append_take_drop_id)
        from "1.prems"[OF this ab(2)] ab(3) show "n' \<le> length b" by simp
      qed
      then obtain X where X: "sub_from ud pat repl ?p' (?x' @ t) = X @ sub_from ud pat repl (prev_of ?p' ?x') t"
          "X = [] \<longleftrightarrow> ?x' = []" "?x' \<noteq> [] \<longrightarrow> f (last X) = f (last ?x')" by blast
      have pp: "prev_of ?p' ?x' = prev_of p x" by (metis append_take_drop_id prev_of_append)
      from kind[OF m] have k: "expand repl g \<noteq> []" "f (last (expand repl g)) = f ((x @ t) ! (n - 1))"
        by simp_all
      have "n - 1 < length x" using n pos by simp
      then have nth: "(x @ t) ! (n - 1) = x ! (n - 1)" by (simp add: nth_append)
      have "sub_from ud pat repl p (x @ t) = expand repl g @ sub_from ud pat repl ?p' (?x' @ t)"
        using sub_from_match[OF lit m, of repl] by (simp only: tk)
      then have "sub_from ud pat repl p (x @ t) = (expand repl g @ X) @ sub_from ud pat repl (prev_of p x) t"
        by (simp only: X(1) pp append_assoc)
      moreover have "f (last (expand repl g @ X)) = f (last x)"
      proof (cases "?x' = []")
        case True
        then have "n = length x" using n by simp
        then have "x ! (n - 1) = last x" using Cons by (simp add: last_conv_nth)
        with True X(2) k nth show ?thesis by simp
      next
        case False
        then have "last ?x' = last x" by simp
        with False X(2,3) show ?thesis by simp
      qed
      ultimately show ?thesis using k(1) Cons by blast
    qed
  qed
qed

lemma no_straddle:
  assumes d: "\<forall>it\<in>set pat. \<not> accepts ud it d"
    and lastc: "t1 = [] \<or> (\<exists>ps c bs. pat = ps @ Ch c # bs \<and> set bs \<subseteq> {WordB} \<and> c \<notin> set t1)"
    and m: "rmatch ud pat q (b @ t1 @ [d]) = Some (n, g)"
  shows "n \<le> length b"
proof (rule ccontr)
  assume "\<not> n \<le> length b"
  then have big: "length b < n" by simp
  from rmatch_le[OF m] have le: "n \<le> length b + length t1 + 1" by simp
  show False
  proof (cases "n = length b + length t1 + 1")
    case True
    then have "d \<in> set (take n (b @ t1 @ [d]))" by simp
    with rmatch_accepted[OF m] d show False by blast
  next
    case False
    with le big have n: "length b < n" "n \<le> length b + length t1" by simp_all
    then have ne: "t1 \<noteq> []" by auto
    with lastc obtain ps c bs where pat: "pat = ps @ Ch c # bs" "set bs \<subseteq> {WordB}" "c \<notin> set t1"
      by blast
    from m pat rmatch_last[of ud ps c bs q "b @ t1 @ [d]" n g]
    have "(b @ t1 @ [d]) ! (n - 1) = c" by simp
    moreover define j where "j = n - 1 - length b"
    have j: "n - 1 = length b + j" "j < length t1" using n by (simp_all add: j_def)
    have "(b @ t1 @ [d]) ! (length b + j) = t1 ! j"
      using j(2) by (simp add: nth_append)
    ultimately have "t1 ! j = c" using j(1) by simp
    then have "c \<in> set t1" using j(2) by (metis nth_mem)
    with pat(3) show False by simp
  qed
qed

text \<open>No match starts in a text that lacks a literal of the pattern.\<close>

lemma no_match_without:
  assumes lit: "Ch c0 \<in> set pat" and c0: "c0 \<notin> set u"
  shows "rmatch ud pat q u = None"
proof (cases "rmatch ud pat q u")
  case (Some r)
  obtain n g where "r = (n, g)" by (cases r)
  with Some rmatch_contains[OF lit, of ud q u n g] have "c0 \<in> set (take n u)" by simp
  then have "c0 \<in> set u" by (meson in_set_takeD)
  with c0 show ?thesis by simp
qed simp

lemma sub_from_without:
  assumes lit: "Ch c0 \<in> set pat" and c0: "c0 \<notin> set u"
  shows "sub_from ud pat repl q u = u"
proof -
  have "sub_from ud pat repl q (u @ []) = u @ sub_from ud pat repl (prev_of q u) []"
  proof (rule sub_from_skip)
    fix a c b assume "u = a @ c # b"
    with c0 have "c0 \<notin> set (c # b @ [])" by auto
    then show "rmatch ud pat (prev_of q a) (c # b @ []) = None"
      by (rule no_match_without[OF lit])
  qed
  then show ?thesis by (simp add: sub_from_Nil[OF lit] del: sub_from.simps)
qed

text \<open>... nor in one that lacks it and ends in a character that the pattern cannot read.\<close>

lemma sub_from_without_cut:
  assumes lit: "Ch c0 \<in> set pat" and c0: "c0 \<notin> set u" and u: "u \<noteq> []"
    and e: "\<forall>it\<in>set pat. \<not> accepts ud it (last u)"
  shows "sub_from ud pat repl q (u @ y) = u @ sub_from ud pat repl (Some (last u)) y"
proof -
  obtain v where v: "u = v @ [last u]" using u by (metis append_butlast_last_id)
  have "sub_from ud pat repl q (v @ last u # y) =
        sub_from ud pat repl q (v @ [last u]) @ sub_from ud pat repl (Some (last u)) y"
    by (rule sub_from_cut_last[OF lit e])
  moreover have "sub_from ud pat repl q (v @ [last u]) = v @ [last u]"
    using sub_from_without[OF lit c0, of ud repl q] v by simp
  moreover have "u @ y = v @ last u # y" using v by (metis append_Cons append_Nil append_assoc)
  ultimately show ?thesis using v by (simp only:)
qed

text \<open>No match starts at a character other than the first literal of the pattern.\<close>

lemma sub_from_other_first:
  assumes "pat = Ch c1 # ps" "c1 \<notin> set u"
  shows "sub_from ud pat repl q (u @ y) = u @ sub_from ud pat repl (prev_of q u) y"
proof (rule sub_from_skip)
  fix a c b assume "u = a @ c # b"
  with assms(2) have "c \<noteq> c1" by auto
  then show "rmatch ud pat (prev_of q a) (c # b @ y) = None" by (simp add: assms(1))
qed

section \<open>Each rule on the text it receives\<close>

subsection \<open>The rule for console.log\<close>

lemma pat_log_lit: "Ch 99 \<in> set pat_log"
  by (simp add: pat_log_def lits_def ustr_def)

lemma rmatch_log_here: "rmatch ud pat_log p (ustr ''console.log('' @ post) = Some (12, [])"
  by (simp add: pat_log_def lits_def ustr_def advance_def)

lemma rmatch_log_local:
  "rmatch ud pat_log p (c # b @ ustr ''console.log('' @ post) = rmatch ud pat_log p (c # b)"
proof -
  have "rmatch ud (Ch 99 # lits ''onsole.log('') p (c # b @ 99 # (ustr ''onsole.log('' @ post))
      = rmatch ud (Ch 99 # lits ''onsole.log('') p (c # b)"
    by (rule rmatch_head_only) (auto simp: lits_def ustr_def)
  then show ?thesis by (simp add: pat_log_def lits_def ustr_def)
qed

lemma log_rule_splits:
  "re_sub ud pat_log [Lit ''console.warn(''] (pre @ ustr ''console.log('' @ post) =
   re_sub ud pat_log [Lit ''console.warn(''] pre @ ustr ''console.warn('' @
   re_sub ud pat_log [Lit ''console.warn(''] post"
proof -
  let ?sub = "sub_from ud pat_log [Lit ''console.warn('']"
  have "?sub None (pre @ (ustr ''console.log('' @ post))
      = ?sub None pre @ ?sub (prev_of None pre) (ustr ''console.log('' @ post)"
    by (rule sub_from_append[OF pat_log_lit]) (rule rmatch_log_local)
  also have "?sub (prev_of None pre) (ustr ''console.log('' @ post)
      = ustr ''console.warn('' @
        ?sub (prev_of (prev_of None pre) (take 12 (ustr ''console.log('' @ post)))
             (drop 12 (ustr ''console.log('' @ post))"
    using sub_from_match[OF pat_log_lit rmatch_log_here,
        of ud "[Lit ''console.warn('']" "prev_of None pre" post] by simp
  also have "drop 12 (ustr ''console.log('' @ post) = post" by (simp add: ustr_def)
  also have "?sub (prev_of (prev_of None pre) (take 12 (ustr ''console.log('' @ post))) post
           = ?sub None post"
    by (rule sub_from_prev[OF pat_log_lit]) (simp add: pat_log_def lits_def ustr_def)
  finally show ?thesis by (simp add: re_sub_def)
qed

subsection \<open>The negation rules: one rule alone\<close>

lemma pat_not_lit: "Ch 33 \<in> set (pat_not v)"
  by (simp add: pat_not_def lits_def ustr_def)









subsection \<open>The rule for the empty object\<close>

lemma pat_empty_obj_unfold:
  "pat_empty_obj = Ch 105 # [Ch 102, Many0 Space, Ch 40, Many0 Space, Ch 123, Many0 Space, Ch 125,
      Many0 Space, Ch 41]"
  by (simp add: pat_empty_obj_def lits_def ustr_def)

lemma pat_empty_obj_lit: "Ch 105 \<in> set pat_empty_obj"
  by (simp add: pat_empty_obj_unfold)

lemma rmatch_obj_here:
  assumes "\<forall>c\<in>set s1 \<union> set s2 \<union> set s3 \<union> set s4. in_class ud Space c"
  shows "rmatch ud pat_empty_obj p
           (ustr ''if'' @ s1 @ ustr ''('' @ s2 @ ustr ''{'' @ s3 @ ustr ''}'' @ s4 @ ustr '')'' @ post)
         = Some (6 + length s1 + length s2 + length s3 + length s4, [])"
proof -
  from assms have sp: "\<forall>c\<in>set s1. in_class ud Space c" "\<forall>c\<in>set s2. in_class ud Space c"
    "\<forall>c\<in>set s3. in_class ud Space c" "\<forall>c\<in>set s4. in_class ud Space c" by blast+
  have ns: "\<not> in_class ud Space 40" "\<not> in_class ud Space 123" "\<not> in_class ud Space 125"
    "\<not> in_class ud Space 41" by (simp_all add: class_defs)
  have r1: "run ud Space (s1 @ 40 # t) = length s1" for t by (rule run_all[OF sp(1) ns(1)])
  have r2: "run ud Space (s2 @ 123 # t) = length s2" for t by (rule run_all[OF sp(2) ns(2)])
  have r3: "run ud Space (s3 @ 125 # t) = length s3" for t by (rule run_all[OF sp(3) ns(3)])
  have r4: "run ud Space (s4 @ 41 # t) = length s4" for t by (rule run_all[OF sp(4) ns(4)])
  have 1: "rmatch ud [Ch 41] q (41 # post) = Some (1, [])" for q
    by (simp add: advance_def)
  have 2: "rmatch ud [Many0 Space, Ch 41] q (s4 @ 41 # post) = Some (length s4 + 1, [])" for q
    by (rule rmatch_Many0_run[OF r4 1])
  have 3: "rmatch ud [Ch 125, Many0 Space, Ch 41] q (125 # s4 @ 41 # post) = Some (Suc (length s4 + 1), [])" for q
    by (rule rmatch_Ch_here) (rule 2)
  have 4: "rmatch ud [Many0 Space, Ch 125, Many0 Space, Ch 41] q (s3 @ 125 # s4 @ 41 # post)
           = Some (length s3 + Suc (length s4 + 1), [])" for q
    by (rule rmatch_Many0_run[OF r3 3])
  have 5: "rmatch ud [Ch 123, Many0 Space, Ch 125, Many0 Space, Ch 41] q (123 # s3 @ 125 # s4 @ 41 # post)
           = Some (Suc (length s3 + Suc (length s4 + 1)), [])" for q
    by (rule rmatch_Ch_here) (rule 4)
  have 6: "rmatch ud [Many0 Space, Ch 123, Many0 Space, Ch 125, Many0 Space, Ch 41] q
             (s2 @ 123 # s3 @ 125 # s4 @ 41 # post)
           = Some (length s2 + Suc (length s3 + Suc (length s4 + 1)), [])" for q
    by (rule rmatch_Many0_run[OF r2 5])
  have 7: "rmatch ud [Ch 40, Many0 Space, Ch 123, Many0 Space, Ch 125, Many0 Space, Ch 41] q
             (40 # s2 @ 123 # s3 @ 125 # s4 @ 41 # post)
           = Some (Suc (length s2 + Suc (length s3 + Suc (length s4 + 1))), [])" for q
    by (rule rmatch_Ch_here) (rule 6)
  have 8: "rmatch ud [Many0 Space, Ch 40, Many0 Space, Ch 123, Many0 Space, Ch 125, Many0 Space, Ch 41] q
             (s1 @ 40 # s2 @ 123 # s3 @ 125 # s4 @ 41 # post)
           = Some (length s1 + Suc (length s2 + Suc (length s3 + Suc (length s4 + 1))), [])" for q
    by (rule rmatch_Many0_run[OF r1 7])
  have 9: "rmatch ud pat_empty_obj p (105 # 102 # s1 @ 40 # s2 @ 123 # s3 @ 125 # s4 @ 41 # post)
        = Some (Suc (Suc (length s1 + Suc (length s2 + Suc (length s3 + Suc (length s4 + 1))))), [])"
    unfolding pat_empty_obj_unfold
    by (rule rmatch_Ch_here, rule rmatch_Ch_here, rule 8)
  have tx: "ustr ''if'' @ s1 @ ustr ''('' @ s2 @ ustr ''{'' @ s3 @ ustr ''}'' @ s4 @ ustr '')'' @ post
        = 105 # 102 # s1 @ 40 # s2 @ 123 # s3 @ 125 # s4 @ 41 # post"
    by (simp add: ustr_def)
  show ?thesis unfolding tx using 9 by simp
qed

lemma rmatch_obj_local:
  "rmatch ud pat_empty_obj p (c # b @ ustr ''if'' @ rest) = rmatch ud pat_empty_obj p (c # b)"
proof -
  have "rmatch ud (Ch 105 # [Ch 102, Many0 Space, Ch 40, Many0 Space, Ch 123, Many0 Space, Ch 125,
      Many0 Space, Ch 41]) p (c # b @ 105 # (102 # rest))
      = rmatch ud (Ch 105 # [Ch 102, Many0 Space, Ch 40, Many0 Space, Ch 123, Many0 Space, Ch 125,
      Many0 Space, Ch 41]) p (c # b)"
    by (rule rmatch_head_only) (auto simp: class_defs)
  moreover have "ustr ''if'' @ rest = 105 # (102 # rest)" by (simp add: ustr_def)
  ultimately show ?thesis unfolding pat_empty_obj_unfold by (simp only:)
qed

lemma obj_rule_splits:
  assumes "\<forall>c\<in>set s1 \<union> set s2 \<union> set s3 \<union> set s4. in_class ud Space c"
  shows "re_sub ud pat_empty_obj [Lit ''if (false)'']
           (pre @ ustr ''if'' @ s1 @ ustr ''('' @ s2 @ ustr ''{'' @ s3 @ ustr ''}'' @ s4 @ ustr '')'' @ post) =
         re_sub ud pat_empty_obj [Lit ''if (false)''] pre @ ustr ''if (false)'' @
         re_sub ud pat_empty_obj [Lit ''if (false)''] post"
proof -
  define M where "M = ustr ''if'' @ s1 @ ustr ''('' @ s2 @ ustr ''{'' @ s3 @ ustr ''}'' @ s4 @ ustr '')''"
  have len: "length M = 6 + length s1 + length s2 + length s3 + length s4"
    by (simp add: M_def ustr_def)
  have "re_sub ud pat_empty_obj [Lit ''if (false)''] (pre @ M @ post) =
        re_sub ud pat_empty_obj [Lit ''if (false)''] pre @ expand [Lit ''if (false)''] [] @
        re_sub ud pat_empty_obj [Lit ''if (false)''] post"
  proof (rule re_sub_occurrence[OF pat_empty_obj_lit])
    fix a c b
    show "rmatch ud pat_empty_obj (prev_of None a) (c # b @ M @ post)
        = rmatch ud pat_empty_obj (prev_of None a) (c # b)"
      using rmatch_obj_local[of ud "prev_of None a" c b
          "s1 @ ustr ''('' @ s2 @ ustr ''{'' @ s3 @ ustr ''}'' @ s4 @ ustr '')'' @ post"]
      by (simp add: M_def)
  next
    have "rmatch ud pat_empty_obj (prev_of None pre) (M @ post)
        = Some (6 + length s1 + length s2 + length s3 + length s4, [])"
      using rmatch_obj_here[OF assms, of "prev_of None pre" post] by (simp add: M_def)
    then show "rmatch ud pat_empty_obj (prev_of None pre) (M @ post) = Some (length M, [])"
      by (simp only: len)
  next
    show "sub_from ud pat_empty_obj [Lit ''if (false)''] (prev_of (prev_of None pre) M) post
        = sub_from ud pat_empty_obj [Lit ''if (false)''] None post"
      by (rule sub_from_prev[OF pat_empty_obj_lit]) (simp add: pat_empty_obj_unfold)
  qed
  then show ?thesis by (simp add: M_def)
qed

subsection \<open>The lookup rules: one rule alone\<close>











subsection \<open>The rule for unused names: one rule alone\<close>

lemma pat_unused_unfold:
  "pat_unused = WordB # map Ch (ustr ''unused'') @ [Cap1 Word, WordB]"
  by (simp add: pat_unused_def lits_def)

lemma pat_unused_lit: "Ch 117 \<in> set pat_unused"
  by (simp add: pat_unused_def lits_def ustr_def)

lemma unused_chars: "\<forall>c\<in>set (ustr ''unused''). in_class ud Word c"
  by (simp add: ustr_def class_defs)






text \<open>
  What the pattern of line 33 matches: \<^verbatim>\<open>unused\<close> with no word character before it,
  and then the whole run of word characters that follows, which must not be empty.
\<close>

lemma rmatch_lits_prefix:
  "rmatch ud (map Ch cs @ ps) q s =
     (if take (length cs) s = cs then advance (length cs) (rmatch ud ps (prev_of q cs) (drop (length cs) s))
      else None)"
proof (induction cs arbitrary: q s)
  case Nil
  then show ?case by (cases "rmatch ud ps q s") (auto simp: advance_def)
next
  case (Cons c cs)
  show ?case
  proof (cases s)
    case Nil then show ?thesis by simp
  next
    case (Cons x xs)
    show ?thesis
    proof (cases "rmatch ud ps (prev_of (Some c) cs) (drop (length cs) xs)")
      case None
      with Cons Cons.IH[of "Some c" xs] show ?thesis by (auto simp: advance_def)
    next
      case (Some r)
      with Cons Cons.IH[of "Some c" xs] show ?thesis by (cases r) (auto simp: advance_def)
    qed
  qed
qed

lemma run_next: "\<not> is_word_opt ud (first (drop (run ud Word s) s))"
proof (induction s)
  case Nil then show ?case by (simp add: run_def)
next
  case (Cons x xs) then show ?case by (auto simp: run_def)
qed

lemma run_last: "0 < run ud cl s \<Longrightarrow> in_class ud cl (last (take (run ud cl s) s))"
proof -
  assume r: "0 < run ud cl s"
  then have "take (run ud cl s) s \<noteq> []" using run_le[of ud cl s] by auto
  then have "last (take (run ud cl s) s) \<in> set (take (run ud cl s) s)" by simp
  with run_take[of "run ud cl s" ud cl s] show ?thesis by blast
qed

lemma rmatch_word_run:
  "rmatch ud [Cap1 Word, WordB] q s =
     (if 0 < run ud Word s then Some (run ud Word s, take (run ud Word s) s) else None)"
proof (cases "0 < run ud Word s")
  case True
  let ?K = "run ud Word s"
  have ne: "take ?K s \<noteq> []" using True run_le[of ud Word s] by auto
  have "at_boundary ud (prev_of q (take ?K s)) (drop ?K s)"
    using run_last[OF True] run_next[of ud s] ne by (simp add: at_boundary_def prev_of_def)
  then have "capture (take ?K s) (advance ?K (rmatch ud [WordB] (prev_of q (take ?K s)) (drop ?K s)))
      = Some (?K, take ?K s)" by (simp add: capture_def advance_def)
  then have "greedy (\<lambda>k. capture (take k s) (advance k (rmatch ud [WordB] (prev_of q (take k s)) (drop k s)))) 1 ?K
      = Some (?K, take ?K s)"
    by (rule greedy_first) (use True in simp)
  with True show ?thesis by simp
next
  case False
  then show ?thesis by simp
qed

lemma rmatch_unused_eq:
  "rmatch ud pat_unused p s =
     (if \<not> is_word_opt ud p \<and> take 6 s = ustr ''unused'' \<and> 0 < run ud Word (drop 6 s)
      then Some (6 + run ud Word (drop 6 s), take (run ud Word (drop 6 s)) (drop 6 s))
      else None)"
proof -
  have len: "length (ustr ''unused'') = 6" by (simp add: ustr_def)
  have b: "take 6 s = ustr ''unused'' \<Longrightarrow> at_boundary ud p s = (\<not> is_word_opt ud p)"
    by (cases s) (auto simp: at_boundary_def ustr_def class_defs)
  have "rmatch ud (map Ch (ustr ''unused'') @ [Cap1 Word, WordB]) p s =
     (if take 6 s = ustr ''unused'' \<and> 0 < run ud Word (drop 6 s)
      then Some (6 + run ud Word (drop 6 s), take (run ud Word (drop 6 s)) (drop 6 s))
      else None)"
    unfolding rmatch_lits_prefix rmatch_word_run len by (simp add: advance_def)
  with b show ?thesis by (auto simp: pat_unused_unfold)
qed

lemma rmatch_unused_other: "c \<noteq> 117 \<or> is_word_opt ud q \<Longrightarrow> rmatch ud pat_unused q (c # s) = None"
  by (auto simp: rmatch_unused_eq ustr_def)


lemma run_append_short: "run ud cl a < length a \<Longrightarrow> run ud cl (a @ b) = run ud cl a"
proof (induction a)
  case Nil then show ?case by simp
next
  case (Cons x xs) then show ?case by (auto simp: run_def)
qed

lemma run_append_all: "run ud cl a = length a \<Longrightarrow> run ud cl (a @ b) = length a + run ud cl b"
proof (induction a)
  case Nil then show ?case by simp
next
  case (Cons x xs) then show ?case by (auto simp: run_def split: if_splits)
qed

lemma unused_is_word: "c \<in> set (ustr ''unused'') \<Longrightarrow> in_class ud Word c"
  by (auto simp: ustr_def class_defs)

lemma unused_scan:
  assumes wt: "\<forall>c\<in>set wt. in_class ud Word c" and d: "\<not> in_class ud Word d"
    and hd: "wt \<noteq> [] \<longrightarrow> hd wt \<notin> set (ustr ''unused'')"
  shows "\<exists>X. sub_from ud pat_unused [Lit ''_'', Backref] p (x @ wt @ [d]) = X @ wt @ [d]"
proof (induction x arbitrary: p rule: length_induct)
  case (1 x)
  let ?r = "[Lit ''_'', Backref]"
  let ?t = "wt @ [d]"
  have d117: "d \<noteq> 117" using d by (auto simp: class_defs)
  have first: "hd ?t \<notin> set (ustr ''unused'')"
    using hd d unused_is_word[of d ud] by (cases wt) auto
  show ?case
  proof (cases x)
    case Nil
    have "sub_from ud pat_unused ?r p (?t @ []) = ?t @ sub_from ud pat_unused ?r (prev_of p ?t) []"
    proof (rule sub_from_skip)
      fix a c b assume ab: "?t = a @ c # b"
      show "rmatch ud pat_unused (prev_of p a) (c # b @ []) = None"
      proof (cases a)
        case Nil
        with ab first have "c \<noteq> 117" by (auto simp: ustr_def)
        then show ?thesis by (simp add: rmatch_unused_other)
      next
        case (Cons a1 as)
        from ab have "set a \<subseteq> set wt"
          by (metis append_eq_append_conv2 append_is_Nil_conv butlast_append butlast_snoc
                list.distinct(1) set_append sup_ge1 append_Nil2 in_set_butlast_appendI subsetI)
        with Cons wt have "in_class ud Word (last a)" by (metis last_in_set list.distinct(1) subsetD)
        with Cons have "is_word_opt ud (prev_of p a)" by (simp add: prev_of_def)
        then show ?thesis by (simp add: rmatch_unused_other)
      qed
    qed
    with Nil show ?thesis by (simp add: sub_from_Nil[OF pat_unused_lit] del: sub_from.simps)
  next
    case (Cons c cs)
    show ?thesis
    proof (cases "rmatch ud pat_unused p (x @ ?t)")
      case None
      from "1.IH"[rule_format, of cs "Some c"] Cons
      obtain X where "sub_from ud pat_unused ?r (Some c) (cs @ ?t) = X @ ?t" by auto
      with None Cons have "sub_from ud pat_unused ?r p (x @ ?t) = (c # X) @ ?t"
        by (simp add: sub_from_Cons[OF pat_unused_lit] del: sub_from.simps)
      then show ?thesis by blast
    next
      case (Some r)
      obtain n g where r: "r = (n, g)" by (cases r)
      with Some have m: "rmatch ud pat_unused p (x @ ?t) = Some (n, g)" by simp
      let ?s = "x @ ?t"
      define D where "D = drop 6 ?s"
      from m have u: "take 6 ?s = ustr ''unused''" "0 < run ud Word D"
          "n = 6 + run ud Word D" "g = take (run ud Word D) D"
        unfolding D_def by (auto simp: rmatch_unused_eq split: if_splits)
      have six: "6 \<le> length x"
      proof (rule ccontr)
        assume "\<not> 6 \<le> length x"
        then have lx: "length x < 6" by simp
        have "length (take 6 ?s) = 6" using u(1) by (simp add: ustr_def)
        then have ls: "6 \<le> length ?s" by simp
        have "take 6 ?s ! length x = ?s ! length x" using lx by (intro nth_take)
        also have "\<dots> = ?t ! 0" by (simp add: nth_append)
        also have "\<dots> = hd ?t" by (simp add: hd_conv_nth)
        finally have "hd ?t = ustr ''unused'' ! length x" using u(1) by simp
        moreover have "length x < length (ustr ''unused'')" using lx by (simp add: ustr_def)
        ultimately have "hd ?t \<in> set (ustr ''unused'')" by (metis nth_mem)
        with first show False by simp
      qed
      define x' where "x' = drop 6 x"
      have x: "x = ustr ''unused'' @ x'"
        using six u(1) by (metis x'_def append_take_drop_id take_append diff_is_0_eq' take0 append_Nil2)
      have d6: "D = x' @ ?t" using six by (simp add: x'_def D_def)
      show ?thesis
      proof (cases "run ud Word x' < length x'")
        case True
        then have run: "run ud Word D = run ud Word x'"
          by (simp add: d6 run_append_short)
        with u True have n: "0 < n" "n \<le> length x" using six by (simp_all add: x'_def)
        from "1.IH"[rule_format, of "drop n x" "prev_of p (take n ?s)"] n Cons
        obtain X where "sub_from ud pat_unused ?r (prev_of p (take n ?s)) (drop n x @ ?t) = X @ ?t"
          by auto
        moreover have "drop n ?s = drop n x @ ?t" using n by simp
        ultimately have "sub_from ud pat_unused ?r p ?s = (expand ?r g @ X) @ ?t"
          using sub_from_match[OF pat_unused_lit m, of ?r] by simp
        then show ?thesis by blast
      next
        case False
        with run_le[of ud Word x'] have all: "run ud Word x' = length x'" by simp
        have "run ud Word (wt @ d # []) = length wt" by (rule run_all[OF wt d])
        with all have run: "run ud Word D = length x' + length wt"
          by (simp add: d6 run_append_all)
        with u have n: "n = length x + length wt" and g: "g = x' @ wt"
          using six by (simp_all add: d6 x'_def)
        have dn: "drop n ?s = [d]" "take n ?s \<noteq> []" using n six by auto
        have "rmatch ud pat_unused (prev_of p (take n ?s)) [d] = None"
          using d117 by (simp add: rmatch_unused_other)
        then have "sub_from ud pat_unused ?r (prev_of p (take n ?s)) [d] = [d]"
          by (simp add: sub_from_Cons[OF pat_unused_lit] sub_from_Nil[OF pat_unused_lit] del: sub_from.simps)
        with dn g have "sub_from ud pat_unused ?r p ?s = (ustr ''_'' @ x') @ ?t"
          using sub_from_match[OF pat_unused_lit m, of ?r] by simp
        then show ?thesis by blast
      qed
    qed
  qed
qed

section \<open>An occurrence on its way through the rule set\<close>

lemma fix_text_rules: "fix_text ud s = apply_rules ud rules s"
  by (simp add: fix_text_def rules_def apply_rules_def)

lemma apply_rules_Nil [simp]: "apply_rules ud [] s = s"
  by (simp add: apply_rules_def)

lemma apply_rules_Cons [simp]:
  "apply_rules ud (r # rs) s = apply_rules ud rs (re_sub ud (fst r) (snd r) s)"
  by (simp add: apply_rules_def)

lemma apply_rules_append: "apply_rules ud (rs @ rs') s = apply_rules ud rs' (apply_rules ud rs s)"
  by (simp add: apply_rules_def)

lemma keeps_rules:
  "\<forall>r\<in>set rs. keeps ud t r \<Longrightarrow>
   \<exists>X. \<forall>y. apply_rules ud rs (x @ t @ y) = X @ t @ apply_rules ud rs y"
proof (induction rs arbitrary: x)
  case Nil then show ?case by simp
next
  case (Cons r rs)
  then obtain X1 where X1: "\<forall>y. re_sub ud (fst r) (snd r) (x @ t @ y) = X1 @ t @ re_sub ud (fst r) (snd r) y"
    unfolding keeps_def by (metis list.set_intros(1))
  from Cons obtain X where "\<forall>y. apply_rules ud rs (X1 @ t @ y) = X @ t @ apply_rules ud rs y"
    by (metis list.set_intros(2))
  with X1 show ?case by auto
qed

lemma keeps_by_cut:
  assumes lit: "Ch c0 \<in> set pat"
    and ne: "\<And>g. expand repl g \<noteq> []"
    and t: "t = t1 @ d # t2"
    and d: "\<forall>it\<in>set pat. \<not> accepts ud it d"
    and S: "\<And>q b n g. b \<noteq> [] \<Longrightarrow> rmatch ud pat q (b @ t1 @ [d]) = Some (n, g) \<Longrightarrow> n \<le> length b"
    and I1: "\<And>q. sub_from ud pat repl q (t1 @ [d]) = t1 @ [d]"
    and I2: "\<And>y. sub_from ud pat repl (Some d) (t2 @ y) = t2 @ sub_from ud pat repl None y"
  shows "keeps ud t (pat, repl)"
  unfolding keeps_def
proof
  fix x
  have "\<exists>X. sub_from ud pat repl None (x @ (t1 @ [d])) =
              X @ sub_from ud pat repl (prev_of None x) (t1 @ [d]) \<and>
             (X = [] \<longleftrightarrow> x = []) \<and> (x \<noteq> [] \<longrightarrow> (\<lambda>c. ()) (last X) = (\<lambda>c. ()) (last x))"
    by (rule keep_scan[OF lit]) (use ne S in auto)
  then obtain X where X: "sub_from ud pat repl None (x @ (t1 @ [d])) = X @ t1 @ [d]"
    using I1 by auto
  have "\<forall>y. re_sub ud pat repl (x @ t @ y) = X @ t @ re_sub ud pat repl y"
  proof
    fix y
    have "sub_from ud pat repl None ((x @ t1) @ d # (t2 @ y)) =
          sub_from ud pat repl None ((x @ t1) @ [d]) @ sub_from ud pat repl (Some d) (t2 @ y)"
      by (rule sub_from_cut_last[OF lit d])
    with X I2[of y] t show "re_sub ud pat repl (x @ t @ y) = X @ t @ re_sub ud pat repl y"
      by (simp add: re_sub_def)
  qed
  then show "\<exists>X. \<forall>y. re_sub ud (fst (pat, repl)) (snd (pat, repl)) (x @ t @ y) =
      X @ t @ re_sub ud (fst (pat, repl)) (snd (pat, repl)) y" by auto
qed

lemma keeps_generic:
  assumes lit: "Ch c0 \<in> set pat" and c0: "c0 \<notin> set t"
    and ne: "\<And>g. expand repl g \<noteq> []"
    and t: "t = t1 @ d # t2"
    and d: "\<forall>it\<in>set pat. \<not> accepts ud it d"
    and lastc': "t1 = [] \<or> (pat = ps @ Ch c # bs \<and> set bs \<subseteq> {WordB} \<and> c \<notin> set t1)"
    and e: "\<forall>it\<in>set pat. \<not> accepts ud it (last t)"
    and w: "WordB \<in> set pat \<longrightarrow> \<not> in_class ud Word (last t)"
  shows "keeps ud t (pat, repl)"
proof (rule keeps_by_cut[OF lit ne t d])
  from lastc' have lastc: "t1 = [] \<or> (\<exists>ps c bs. pat = ps @ Ch c # bs \<and> set bs \<subseteq> {WordB} \<and> c \<notin> set t1)"
    by blast
  fix q b n g assume "b \<noteq> []" "rmatch ud pat q (b @ t1 @ [d]) = Some (n, g)"
  then show "n \<le> length b" using no_straddle[OF d lastc] by blast
next
  fix q
  from c0 t have "c0 \<notin> set (t1 @ [d])" by simp
  then show "sub_from ud pat repl q (t1 @ [d]) = t1 @ [d]" by (rule sub_from_without[OF lit])
next
  fix y
  have cl: "WordB \<in> set pat \<longrightarrow> is_word_opt ud (Some (last t)) = is_word_opt ud None"
    using w by simp
  show "sub_from ud pat repl (Some d) (t2 @ y) = t2 @ sub_from ud pat repl None y"
  proof (cases "t2 = []")
    case True
    with t have "last t = d" by simp
    with cl True sub_from_prev_class[OF lit, of ud "Some d" None repl y] show ?thesis by simp
  next
    case False
    with t have l: "last t2 = last t" by simp
    from c0 t have "c0 \<notin> set t2" by simp
    from sub_from_without_cut[OF lit this False, of ud repl "Some d" y] e l
    have "sub_from ud pat repl (Some d) (t2 @ y) = t2 @ sub_from ud pat repl (Some (last t)) y"
      by simp
    with cl sub_from_prev_class[OF lit, of ud "Some (last t)" None repl y] show ?thesis by simp
  qed
qed

text \<open>The same for a pattern that begins with a literal which \<open>t\<close> lacks.\<close>

lemma keeps_generic_first:
  assumes pat: "pat = Ch c1 # ps'" and c1: "c1 \<notin> set t"
    and ne: "\<And>g. expand repl g \<noteq> []"
    and t: "t = t1 @ d # t2"
    and d: "\<forall>it\<in>set pat. \<not> accepts ud it d"
    and lastc': "t1 = [] \<or> (pat = ps @ Ch c # bs \<and> set bs \<subseteq> {WordB} \<and> c \<notin> set t1)"
    and w: "WordB \<in> set pat \<longrightarrow> \<not> in_class ud Word (last t)"
  shows "keeps ud t (pat, repl)"
proof (rule keeps_by_cut[OF _ ne t d])
  show lit: "Ch c1 \<in> set pat" using pat by simp
  from lastc' have lastc: "t1 = [] \<or> (\<exists>ps c bs. pat = ps @ Ch c # bs \<and> set bs \<subseteq> {WordB} \<and> c \<notin> set t1)"
    by blast
  {
    fix q b n g assume "b \<noteq> []" "rmatch ud pat q (b @ t1 @ [d]) = Some (n, g)"
    then show "n \<le> length b" using no_straddle[OF d lastc] by blast
  next
    fix q
    from c1 t have "c1 \<notin> set (t1 @ [d])" by simp
    from sub_from_other_first[OF pat this, of ud repl q "[]"]
    show "sub_from ud pat repl q (t1 @ [d]) = t1 @ [d]"
      by (simp add: sub_from_Nil[OF lit] del: sub_from.simps)
  next
    fix y
    from c1 t have "c1 \<notin> set t2" by simp
    from sub_from_other_first[OF pat this, of ud repl "Some d" y]
    have "sub_from ud pat repl (Some d) (t2 @ y) = t2 @ sub_from ud pat repl (Some (last t)) y"
      using t by (simp add: prev_of_def)
    moreover have "WordB \<in> set pat \<longrightarrow> is_word_opt ud (Some (last t)) = is_word_opt ud None"
      using w by simp
    ultimately show "sub_from ud pat repl (Some d) (t2 @ y) = t2 @ sub_from ud pat repl None y"
      using sub_from_prev_class[OF lit, of ud "Some (last t)" None repl y] by simp
  }
qed

subsection \<open>Facts about the patterns and replacements\<close>

lemma repl_nonempty:
  "expand repl_name g \<noteq> []" "expand (repl_null v) g \<noteq> []" "expand [Lit ''if (false)''] g \<noteq> []"
  "expand [Lit ''console.warn(''] g \<noteq> []" "expand [Lit ''_'', Backref] g \<noteq> []"
  by (simp_all add: repl_name_def repl_null_def ustr_def)

lemma pat_name_last: "pat_name = (Cap1 Word # lits ''[name] |'') @ Ch 124 # []"
  by (simp add: pat_name_def lits_def ustr_def)

lemma pat_value_last: "pat_value = (Cap1 Word # lits ''[value] |'') @ Ch 124 # []"
  by (simp add: pat_value_def lits_def ustr_def)

lemma pat_not_last:
  "v \<noteq> [] \<Longrightarrow> pat_not v = lits (CHR ''!'' # butlast v) @ Ch (of_char (last v)) # [WordB]"
proof -
  assume "v \<noteq> []"
  then have "v = butlast v @ [last v]" by simp
  then have "map Ch (ustr v) = map Ch (ustr (butlast v)) @ [Ch (of_char (last v))]"
    by (metis (no_types, lifting) list.simps(8,9) map_append ustr_def)
  then show ?thesis by (simp add: pat_not_def lits_def ustr_def)
qed

lemma pat_log_last: "pat_log = lits ''console.log'' @ Ch 40 # []"
  by (simp add: pat_log_def lits_def ustr_def)

lemma unused_blocked: "\<not> in_class ud Word d \<Longrightarrow> \<forall>it\<in>set pat_unused. \<not> accepts ud it d"
  by (auto simp: pat_unused_def lits_def ustr_def class_defs)

lemma keeps_unused:
  assumes t: "t = wt @ d # t2"
    and wt: "\<forall>c\<in>set wt. in_class ud Word c" and d: "\<not> in_class ud Word d"
    and hd: "wt \<noteq> [] \<longrightarrow> hd wt \<notin> set (ustr ''unused'')"
    and t2: "117 \<notin> set t2" and l: "\<not> in_class ud Word (last t)"
  shows "keeps ud t (pat_unused, [Lit ''_'', Backref])"
  unfolding keeps_def
proof
  fix x
  let ?sub = "sub_from ud pat_unused [Lit ''_'', Backref]"
  from unused_scan[OF wt d hd, of None x] obtain X where X: "?sub None (x @ wt @ [d]) = X @ wt @ [d]"
    by blast
  have "\<forall>y. re_sub ud pat_unused [Lit ''_'', Backref] (x @ t @ y) =
            X @ t @ re_sub ud pat_unused [Lit ''_'', Backref] y"
  proof
    fix y
    have "?sub None ((x @ wt) @ d # (t2 @ y)) = ?sub None ((x @ wt) @ [d]) @ ?sub (Some d) (t2 @ y)"
      by (rule sub_from_cut_last[OF pat_unused_lit unused_blocked[OF d]])
    moreover have "?sub (Some d) (t2 @ y) = t2 @ ?sub (prev_of (Some d) t2) y"
    proof (rule sub_from_skip)
      fix a c b assume "t2 = a @ c # b"
      with t2 have "c \<noteq> 117" by auto
      then show "rmatch ud pat_unused (prev_of (Some d) a) (c # b @ y) = None"
        by (simp add: rmatch_unused_other)
    qed
    moreover have "prev_of (Some d) t2 = Some (last t)" using t by (simp add: prev_of_def)
    moreover have "?sub (Some (last t)) y = ?sub None y"
      by (rule sub_from_prev_class[OF pat_unused_lit]) (use l in simp)
    ultimately show "re_sub ud pat_unused [Lit ''_'', Backref] (x @ t @ y) =
            X @ t @ re_sub ud pat_unused [Lit ''_'', Backref] y"
      using X t by (simp add: re_sub_def)
  qed
  then show "\<exists>X. \<forall>y. re_sub ud (fst (pat_unused, [Lit ''_'', Backref])) (snd (pat_unused, [Lit ''_'', Backref])) (x @ t @ y) =
      X @ t @ re_sub ud (fst (pat_unused, [Lit ''_'', Backref])) (snd (pat_unused, [Lit ''_'', Backref])) y"
    by auto
qed

lemma fix_text_Nil: "fix_text ud [] = []"
  by (simp add: rule_defs)

text \<open>
  An occurrence \<open>t\<close> that the rules before the one for it keep, that its own rule
  rewrites to \<open>t'\<close> wherever it stands, and that the rules behind keep as \<open>t'\<close>.
\<close>

lemma occurrence_through_rules:
  assumes rs: "rules = rs1 @ r # rs2"
    and before: "\<forall>r'\<in>set rs1. keeps ud t r'"
    and own: "\<And>x y. re_sub ud (fst r) (snd r) (x @ t @ y) =
                re_sub ud (fst r) (snd r) x @ t' @ re_sub ud (fst r) (snd r) y"
    and behind: "\<forall>r'\<in>set rs2. keeps ud t' r'"
  shows "\<exists>L. \<forall>post. fix_text ud (pre @ t @ post) = L @ t' @ fix_text ud post"
proof -
  from keeps_rules[OF before, of pre] obtain X1
    where X1: "\<forall>y. apply_rules ud rs1 (pre @ t @ y) = X1 @ t @ apply_rules ud rs1 y" by blast
  from keeps_rules[OF behind, of "re_sub ud (fst r) (snd r) X1"] obtain X2
    where X2: "\<forall>y. apply_rules ud rs2 (re_sub ud (fst r) (snd r) X1 @ t' @ y) = X2 @ t' @ apply_rules ud rs2 y"
    by blast
  have "\<forall>post. fix_text ud (pre @ t @ post) = X2 @ t' @ fix_text ud post"
    by (simp add: fix_text_rules rs apply_rules_append X1 own X2)
  then show ?thesis by blast
qed

subsection \<open>The call of console.log\<close>

lemma name_keeps_log: "keeps ud (ustr ''console.log('') (pat_name, repl_name)"
  by (rule keeps_generic[where ?c0.0 = 91 and ?t1.0 = "ustr ''console''" and d = 46 and ?t2.0 = "ustr ''log(''"
        and ps = "Cap1 Word # lits ''[name] |''" and c = 124 and bs = "[]"])
     (simp_all add: repl_nonempty pat_name_def lits_def ustr_def class_defs)

lemma value_keeps_log: "keeps ud (ustr ''console.log('') (pat_value, repl_name)"
  by (rule keeps_generic[where ?c0.0 = 91 and ?t1.0 = "ustr ''console''" and d = 46 and ?t2.0 = "ustr ''log(''"
        and ps = "Cap1 Word # lits ''[value] |''" and c = 124 and bs = "[]"])
     (simp_all add: repl_nonempty pat_value_def lits_def ustr_def class_defs)

lemma not_keeps_log:
  assumes v: "v \<in> set nullable"
  shows "keeps ud (ustr ''console.log('') (pat_not v, repl_null v)"
proof (cases "v = ''instance''")
  case True
  show ?thesis unfolding True
    by (rule keeps_generic[where ?c0.0 = 33 and ?t1.0 = "[99]" and d = 111 and ?t2.0 = "ustr ''nsole.log(''"
        and ps = "lits ''!instanc''" and c = 101 and bs = "[WordB]"])
       (simp_all add: repl_nonempty pat_not_def lits_def ustr_def class_defs)
next
  case False
  with v show ?thesis
    by (intro keeps_generic[where ?c0.0 = 33 and ?t1.0 = "[]" and d = 99 and ?t2.0 = "ustr ''onsole.log(''"])
       (auto simp: nullable_def repl_nonempty pat_not_def lits_def ustr_def class_defs)
qed

lemma pat_empty_obj_first:
  "pat_empty_obj = Ch 105 # (Ch 102 # Many0 Space # lits ''('' @ [Many0 Space] @ lits ''{'' @
     [Many0 Space] @ lits ''}'' @ [Many0 Space] @ lits '')'')"
  by (simp add: pat_empty_obj_def lits_def ustr_def)

lemma obj_keeps_log: "keeps ud (ustr ''console.log('') (pat_empty_obj, [Lit ''if (false)''])"
  by (rule keeps_generic_first[OF pat_empty_obj_first, where ?t1.0 = "[]" and d = 99 and ?t2.0 = "ustr ''onsole.log(''"])
     (simp_all add: repl_nonempty pat_empty_obj_def lits_def ustr_def class_defs)

lemma unused_keeps_warn: "keeps ud (ustr ''console.warn('') (pat_unused, [Lit ''_'', Backref])"
  by (rule keeps_unused[where wt = "ustr ''console''" and d = 46 and ?t2.0 = "ustr ''warn(''"])
     (simp_all add: ustr_def class_defs)

lemma log_through_rules:
  "\<exists>L. \<forall>post. fix_text ud (pre @ ustr ''console.log('' @ post) =
                  L @ ustr ''console.warn('' @ fix_text ud post"
proof (rule occurrence_through_rules)
  show "rules = [(pat_name, repl_name), (pat_value, repl_name),
      (pat_not ''text'', repl_null ''text''), (pat_not ''result'', repl_null ''result''),
      (pat_not ''response'', repl_null ''response''), (pat_not ''jsonData'', repl_null ''jsonData''),
      (pat_not ''instance'', repl_null ''instance''), (pat_not ''options'', repl_null ''options''),
      (pat_empty_obj, [Lit ''if (false)''])] @ (pat_log, [Lit ''console.warn('']) #
      [(pat_unused, [Lit ''_'', Backref])]"
    by (simp add: rules_def)
  show "\<forall>r'\<in>set [(pat_name, repl_name), (pat_value, repl_name),
      (pat_not ''text'', repl_null ''text''), (pat_not ''result'', repl_null ''result''),
      (pat_not ''response'', repl_null ''response''), (pat_not ''jsonData'', repl_null ''jsonData''),
      (pat_not ''instance'', repl_null ''instance''), (pat_not ''options'', repl_null ''options''),
      (pat_empty_obj, [Lit ''if (false)''])]. keeps ud (ustr ''console.log('') r'"
    by (simp add: name_keeps_log value_keeps_log not_keeps_log obj_keeps_log nullable_def)
  show "\<forall>r'\<in>set [(pat_unused, [Lit ''_'', Backref])]. keeps ud (ustr ''console.warn('') r'"
    by (simp add: unused_keeps_warn)
  fix x y
  show "re_sub ud (fst (pat_log, [Lit ''console.warn(''])) (snd (pat_log, [Lit ''console.warn(''])) (x @ ustr ''console.log('' @ y) =
        re_sub ud (fst (pat_log, [Lit ''console.warn(''])) (snd (pat_log, [Lit ''console.warn(''])) x @
        ustr ''console.warn('' @
        re_sub ud (fst (pat_log, [Lit ''console.warn(''])) (snd (pat_log, [Lit ''console.warn(''])) y"
    by (simp add: log_rule_splits)
qed

subsection \<open>The test of an empty object\<close>

lemma space_chars:
  "in_class ud Space c \<Longrightarrow> c \<noteq> 33 \<and> c \<noteq> 40 \<and> c \<noteq> 41 \<and> c \<noteq> 46 \<and> c \<noteq> 91 \<and> c \<noteq> 117 \<and> c \<noteq> 124"
  by (auto simp: class_defs)

lemma obj_text:
  assumes sp: "\<forall>c\<in>set s1 \<union> set s2 \<union> set s3 \<union> set s4. in_class ud Space c"
  shows "ustr ''if'' @ s1 @ ustr ''('' @ s2 @ ustr ''{'' @ s3 @ ustr ''}'' @ s4 @ ustr '')'' =
           (ustr ''if'' @ s1) @ 40 # (s2 @ ustr ''{'' @ s3 @ ustr ''}'' @ s4 @ ustr '')'')"
    "ustr ''if'' @ s1 @ ustr ''('' @ s2 @ ustr ''{'' @ s3 @ ustr ''}'' @ s4 @ ustr '')'' =
           [105] @ 102 # (s1 @ ustr ''('' @ s2 @ ustr ''{'' @ s3 @ ustr ''}'' @ s4 @ ustr '')'')"
    "last (ustr ''if'' @ s1 @ ustr ''('' @ s2 @ ustr ''{'' @ s3 @ ustr ''}'' @ s4 @ ustr '')'') = 41"
    "33 \<notin> set (ustr ''if'' @ s1 @ ustr ''('' @ s2 @ ustr ''{'' @ s3 @ ustr ''}'' @ s4 @ ustr '')'')"
    "91 \<notin> set (ustr ''if'' @ s1 @ ustr ''('' @ s2 @ ustr ''{'' @ s3 @ ustr ''}'' @ s4 @ ustr '')'')"
    "124 \<notin> set (ustr ''if'' @ s1)"
  using sp by (auto simp: ustr_def dest: space_chars)

lemma name_keeps_obj:
  assumes sp: "\<forall>c\<in>set s1 \<union> set s2 \<union> set s3 \<union> set s4. in_class ud Space c"
  shows "keeps ud (ustr ''if'' @ s1 @ ustr ''('' @ s2 @ ustr ''{'' @ s3 @ ustr ''}'' @ s4 @ ustr '')'')
           (pat_name, repl_name)"
proof (rule keeps_generic[where ?c0.0 = 91 and ?t1.0 = "ustr ''if'' @ s1" and d = 40
        and ps = "Cap1 Word # lits ''[name] |''" and c = 124 and bs = "[]",
        OF _ obj_text(5)[OF sp] _ obj_text(1)[OF sp]])
  show "Ch 91 \<in> set pat_name" by (simp add: pat_name_def lits_def ustr_def)
  show "\<And>g. expand repl_name g \<noteq> []" by (rule repl_nonempty)
  show "\<forall>it\<in>set pat_name. \<not> accepts ud it 40"
    by (simp add: pat_name_def lits_def ustr_def class_defs)
  show "ustr ''if'' @ s1 = [] \<or> pat_name = (Cap1 Word # lits ''[name] |'') @ Ch 124 # [] \<and>
     set [] \<subseteq> {WordB} \<and> 124 \<notin> set (ustr ''if'' @ s1)"
    using obj_text(6)[OF sp] pat_name_last by simp
  show "\<forall>it\<in>set pat_name. \<not> accepts ud it
      (last (ustr ''if'' @ s1 @ ustr ''('' @ s2 @ ustr ''{'' @ s3 @ ustr ''}'' @ s4 @ ustr '')''))"
    unfolding obj_text(3)[OF sp] by (simp add: pat_name_def lits_def ustr_def class_defs)
  show "WordB \<in> set pat_name \<longrightarrow> \<not> in_class ud Word
      (last (ustr ''if'' @ s1 @ ustr ''('' @ s2 @ ustr ''{'' @ s3 @ ustr ''}'' @ s4 @ ustr '')''))"
    unfolding obj_text(3)[OF sp] by (simp add: class_defs)
qed

lemma value_keeps_obj:
  assumes sp: "\<forall>c\<in>set s1 \<union> set s2 \<union> set s3 \<union> set s4. in_class ud Space c"
  shows "keeps ud (ustr ''if'' @ s1 @ ustr ''('' @ s2 @ ustr ''{'' @ s3 @ ustr ''}'' @ s4 @ ustr '')'')
           (pat_value, repl_name)"
proof (rule keeps_generic[where ?c0.0 = 91 and ?t1.0 = "ustr ''if'' @ s1" and d = 40
        and ps = "Cap1 Word # lits ''[value] |''" and c = 124 and bs = "[]",
        OF _ obj_text(5)[OF sp] _ obj_text(1)[OF sp]])
  show "Ch 91 \<in> set pat_value" by (simp add: pat_value_def lits_def ustr_def)
  show "\<And>g. expand repl_name g \<noteq> []" by (rule repl_nonempty)
  show "\<forall>it\<in>set pat_value. \<not> accepts ud it 40"
    by (simp add: pat_value_def lits_def ustr_def class_defs)
  show "ustr ''if'' @ s1 = [] \<or> pat_value = (Cap1 Word # lits ''[value] |'') @ Ch 124 # [] \<and>
     set [] \<subseteq> {WordB} \<and> 124 \<notin> set (ustr ''if'' @ s1)"
    using obj_text(6)[OF sp] pat_value_last by simp
  show "\<forall>it\<in>set pat_value. \<not> accepts ud it
      (last (ustr ''if'' @ s1 @ ustr ''('' @ s2 @ ustr ''{'' @ s3 @ ustr ''}'' @ s4 @ ustr '')''))"
    unfolding obj_text(3)[OF sp] by (simp add: pat_value_def lits_def ustr_def class_defs)
  show "WordB \<in> set pat_value \<longrightarrow> \<not> in_class ud Word
      (last (ustr ''if'' @ s1 @ ustr ''('' @ s2 @ ustr ''{'' @ s3 @ ustr ''}'' @ s4 @ ustr '')''))"
    unfolding obj_text(3)[OF sp] by (simp add: class_defs)
qed

lemma not_keeps_obj:
  assumes sp: "\<forall>c\<in>set s1 \<union> set s2 \<union> set s3 \<union> set s4. in_class ud Space c"
    and v: "v \<in> set nullable"
  shows "keeps ud (ustr ''if'' @ s1 @ ustr ''('' @ s2 @ ustr ''{'' @ s3 @ ustr ''}'' @ s4 @ ustr '')'')
           (pat_not v, repl_null v)"
proof (rule keeps_generic[where ?c0.0 = 33 and ?t1.0 = "[105]" and d = 102
        and ps = "lits (CHR ''!'' # butlast v)" and c = "of_char (last v)" and bs = "[WordB]",
        OF _ obj_text(4)[OF sp] _ obj_text(2)[OF sp]])
  show "Ch 33 \<in> set (pat_not v)" by (rule pat_not_lit)
  show "\<And>g. expand (repl_null v) g \<noteq> []" by (rule repl_nonempty)
  show "\<forall>it\<in>set (pat_not v). \<not> accepts ud it 102"
    using v by (auto simp: nullable_def pat_not_def lits_def ustr_def)
  show "[105] = [] \<or> pat_not v = lits (CHR ''!'' # butlast v) @ Ch (of_char (last v)) # [WordB] \<and>
     set [WordB] \<subseteq> {WordB} \<and> (of_char (last v) :: nat) \<notin> set [105]"
    using v pat_not_last[of v] by (auto simp: nullable_def)
  show "\<forall>it\<in>set (pat_not v). \<not> accepts ud it
      (last (ustr ''if'' @ s1 @ ustr ''('' @ s2 @ ustr ''{'' @ s3 @ ustr ''}'' @ s4 @ ustr '')''))"
    unfolding obj_text(3)[OF sp] using v by (auto simp: nullable_def pat_not_def lits_def ustr_def)
  show "WordB \<in> set (pat_not v) \<longrightarrow> \<not> in_class ud Word
      (last (ustr ''if'' @ s1 @ ustr ''('' @ s2 @ ustr ''{'' @ s3 @ ustr ''}'' @ s4 @ ustr '')''))"
    unfolding obj_text(3)[OF sp] by (simp add: class_defs)
qed

lemma log_keeps_false: "keeps ud (ustr ''if (false)'') (pat_log, [Lit ''console.warn(''])"
  by (rule keeps_generic[where ?c0.0 = 46 and ?t1.0 = "[]" and d = 105 and ?t2.0 = "ustr ''f (false)''"])
     (simp_all add: repl_nonempty pat_log_def lits_def ustr_def class_defs)

lemma unused_keeps_false: "keeps ud (ustr ''if (false)'') (pat_unused, [Lit ''_'', Backref])"
  by (rule keeps_unused[where wt = "ustr ''if''" and d = 32 and ?t2.0 = "ustr ''(false)''"])
     (simp_all add: ustr_def class_defs)

lemma obj_through_rules:
  assumes sp: "\<forall>c\<in>set s1 \<union> set s2 \<union> set s3 \<union> set s4. in_class ud Space c"
  shows "\<exists>L. \<forall>post. fix_text ud (pre @ (ustr ''if'' @ s1 @ ustr ''('' @ s2 @ ustr ''{'' @ s3 @ ustr ''}'' @ s4 @ ustr '')'') @ post) =
                  L @ ustr ''if (false)'' @ fix_text ud post"
proof (rule occurrence_through_rules)
  show "rules = [(pat_name, repl_name), (pat_value, repl_name),
      (pat_not ''text'', repl_null ''text''), (pat_not ''result'', repl_null ''result''),
      (pat_not ''response'', repl_null ''response''), (pat_not ''jsonData'', repl_null ''jsonData''),
      (pat_not ''instance'', repl_null ''instance''), (pat_not ''options'', repl_null ''options'')] @
      (pat_empty_obj, [Lit ''if (false)'']) #
      [(pat_log, [Lit ''console.warn('']), (pat_unused, [Lit ''_'', Backref])]"
    by (simp add: rules_def)
  show "\<forall>r'\<in>set [(pat_name, repl_name), (pat_value, repl_name),
      (pat_not ''text'', repl_null ''text''), (pat_not ''result'', repl_null ''result''),
      (pat_not ''response'', repl_null ''response''), (pat_not ''jsonData'', repl_null ''jsonData''),
      (pat_not ''instance'', repl_null ''instance''), (pat_not ''options'', repl_null ''options'')].
      keeps ud (ustr ''if'' @ s1 @ ustr ''('' @ s2 @ ustr ''{'' @ s3 @ ustr ''}'' @ s4 @ ustr '')'') r'"
    using name_keeps_obj[OF sp] value_keeps_obj[OF sp] not_keeps_obj[OF sp]
    by (simp add: nullable_def)
  show "\<forall>r'\<in>set [(pat_log, [Lit ''console.warn('']), (pat_unused, [Lit ''_'', Backref])].
      keeps ud (ustr ''if (false)'') r'"
    by (simp add: log_keeps_false unused_keeps_false)
  fix x y
  show "re_sub ud (fst (pat_empty_obj, [Lit ''if (false)''])) (snd (pat_empty_obj, [Lit ''if (false)'']))
          (x @ (ustr ''if'' @ s1 @ ustr ''('' @ s2 @ ustr ''{'' @ s3 @ ustr ''}'' @ s4 @ ustr '')'') @ y) =
        re_sub ud (fst (pat_empty_obj, [Lit ''if (false)''])) (snd (pat_empty_obj, [Lit ''if (false)''])) x @
        ustr ''if (false)'' @
        re_sub ud (fst (pat_empty_obj, [Lit ''if (false)''])) (snd (pat_empty_obj, [Lit ''if (false)''])) y"
    using obj_rule_splits[OF sp, of x y] by simp
qed

section \<open>The logging rule\<close>

lemma log_literal_case:
  "fix_text ud (ustr ''console.log(\"hi\");'') = ustr ''console.warn(\"hi\");''"
  by (simp add: rule_defs)

text \<open>
  Claim C7.  Wherever \<^verbatim>\<open>console.log(\<close> stands in the text given to the rule set, the
  result has \<^verbatim>\<open>console.warn(\<close> in its place: the rules before line 30 leave the token
  as it is, line 30 rewrites it, and line 33 leaves the new token as it is.  What the
  rule set makes of the text before the token does not depend on what follows it, and
  the text behind the token is rewritten as it would be alone.  The whole rule set
  turns \<^verbatim>\<open>console.log("hi");\<close> into \<^verbatim>\<open>console.warn("hi");\<close>.
\<close>

theorem console_log_becomes_warn:
  "(\<exists>L. \<forall>post. fix_text ud (pre @ ustr ''console.log('' @ post) =
                   L @ ustr ''console.warn('' @ fix_text ud post) \<and>
   fix_text ud (ustr ''console.log(\"hi\");'') = ustr ''console.warn(\"hi\");''"
  using log_through_rules[of ud pre] log_literal_case[of ud] by simp

section \<open>What fix_file does to the disk\<close>

text \<open>
  Claim C10.  A read that raises leaves \<open>fix_file\<close> with that exception and the world as
  it was.  The files differ after a call only if the read succeeded, the rules gave a
  text other than the one read, and the file could be opened for writing: the write
  comes behind the rules, and only for a changed text.
\<close>

theorem disk_changes_only_after_the_rules:
  "fix_file ud p w = (r, w') \<Longrightarrow>
     (\<forall>e. files w p = Unreadable e \<longrightarrow> r = Some e \<and> w' = w) \<and>
     (files w' \<noteq> files w \<longrightarrow>
        (\<exists>f. files w p = Readable f \<and> fix_text ud (data f) \<noteq> data f \<and> open_w f = None))"
  by (auto simp: io_defs split: node.splits option.splits if_splits prod.splits sum.splits)

theorem disk_changes_only_after_the_rules_witness:
  "fst (fix_file ascii_only ''missing.js'' demo_world) = Some (no_such_file ''missing.js'') \<and>
   snd (fix_file ascii_only ''missing.js'' demo_world) = demo_world"
  using disk_changes_only_after_the_rules[of ascii_only "''missing.js''" demo_world
      "fst (fix_file ascii_only ''missing.js'' demo_world)"
      "snd (fix_file ascii_only ''missing.js'' demo_world)"]
  by (simp add: demo_world_def io_defs)

section \<open>Texts that the rules leave alone\<close>

lemma demo_c_clean: "\<forall>pat\<in>set patterns. \<not> found ascii_only pat (ustr ''let x = 1;'')"
  by (simp add: patterns_def found_def rule_defs)

text \<open>
  Claim C4.  A text in which none of the eleven patterns matches anywhere comes out of
  the rule set as it went in.  And whenever the rule set returns the text it was given,
  \<open>fix_file\<close> returns without an exception and leaves the world as it was: no file is
  written and nothing is printed.
\<close>

theorem no_match_no_change_no_write:
  "((\<forall>pat\<in>set patterns. \<not> found ud pat content) \<longrightarrow> fix_text ud content = content) \<and>
   (files w p = Readable f \<and> fix_text ud (data f) = data f \<longrightarrow> fix_file ud p w = (None, w))"
  by (simp add: no_pattern_fix_text fix_file_def)

theorem no_match_no_change_no_write_witness:
  "list_all (\<lambda>pat. \<not> found ascii_only pat (ustr ''let x = 1;'')) patterns \<and>
   fix_text ascii_only (ustr ''let x = 1;'') = ustr ''let x = 1;'' \<and>
   files demo_world ''c.js'' = Readable (plain ''let x = 1;'') \<and>
   fix_file ascii_only ''c.js'' demo_world = (None, demo_world)"
  using no_match_no_change_no_write[of ascii_only "ustr ''let x = 1;''" demo_world "''c.js''"
      "plain ''let x = 1;''"] demo_c_clean
  by (simp add: demo_world_def plain_def list_all_iff files_def)

section \<open>The loop over the arguments\<close>

lemma demo_a: "fix_text ascii_only (ustr ''console.log(\"hi\");'') = ustr ''console.warn(\"hi\");''"
  by (simp add: rule_defs)

lemma demo_b:
  "fix_text ascii_only (ustr ''if (!options) { return; }'') = ustr ''if (options == null) { return; }''"
  by (simp add: rule_defs)

lemma demo_run:
  "main ascii_only [''a.js'', ''missing.js'', ''b.js''] demo_world =
     (None, demo_world
        \<lparr>disk := (disk demo_world)
           (''a.js'' := Readable (plain ''console.warn(\"hi\");''),
            ''b.js'' := Readable (plain ''if (options == null) { return; }'')),
         stdout := [''Fixed: a.js'',
                    ''Error fixing missing.js: '' @ message (no_such_file ''missing.js''),
                    ''Fixed: b.js'']\<rparr>)"
  by (simp add: demo_world_def plain_def io_defs ustr_def
        demo_a[unfolded ustr_def, simplified] demo_b[unfolded ustr_def, simplified])

text \<open>
  Claim C5.  The loop catches what \<open>fix_file\<close> raises.  If the line
  \<^verbatim>\<open>Error fixing <path>: <message>\<close> can be printed, it is printed and the run goes on
  with the remaining paths, in the world that \<open>fix_file\<close> left.  If the print of that
  line raises, the exception ends the run.  With an output that takes every line the
  run never ends in an exception: each path whose \<open>fix_file\<close> raises, in the world
  the run has reached, has its line in the output, and the paths behind it are
  processed.
\<close>

theorem error_is_reported_and_the_loop_goes_on:
  "(fix_file ud p w = (Some e, w1) \<and>
    print (''Error fixing '' @ p @ '': '' @ message e) w1 = Inr w2 \<longrightarrow>
      main ud (p # rest) w = main ud rest w2 \<and>
      stdout w2 = stdout w1 @ [''Error fixing '' @ p @ '': '' @ message e]) \<and>
   (fix_file ud p w = (Some e, w1) \<and>
    print (''Error fixing '' @ p @ '': '' @ message e) w1 = Inl e' \<longrightarrow>
      main ud (p # rest) w = (Some e', w1)) \<and>
   ((\<forall>out line. stdout_err w out line = None) \<longrightarrow>
      fst (main ud args w) = None \<and>
      (args = xs @ p # ys \<and> fst (fix_file ud p (snd (main ud xs w))) = Some e \<longrightarrow>
         ''Error fixing '' @ p @ '': '' @ message e \<in> set (stdout (snd (main ud args w))) \<and>
         main ud args w = main ud ys (snd (main ud (xs @ [p]) w))))"
proof (intro conjI impI)
  assume a: "fix_file ud p w = (Some e, w1) \<and>
    print (''Error fixing '' @ p @ '': '' @ message e) w1 = Inr w2"
  then show "main ud (p # rest) w = main ud rest w2" by simp
  from a show "stdout w2 = stdout w1 @ [''Error fixing '' @ p @ '': '' @ message e]"
    by (auto simp: print_eq)
next
  assume "fix_file ud p w = (Some e, w1) \<and>
    print (''Error fixing '' @ p @ '': '' @ message e) w1 = Inl e'"
  then show "main ud (p # rest) w = (Some e', w1)" by simp
next
  assume ok: "\<forall>out line. stdout_err w out line = None"
  then show "fst (main ud args w) = None" by (rule main_runs_through)
next
  assume ok: "\<forall>out line. stdout_err w out line = None"
    and a: "args = xs @ p # ys \<and> fst (fix_file ud p (snd (main ud xs w))) = Some e"
  let ?line = "''Error fixing '' @ p @ '': '' @ message e"
  obtain w1 where xs: "main ud xs w = (None, w1)"
    using main_runs_through[OF ok, of ud xs] by (cases "main ud xs w") auto
  have ok1: "\<forall>out line. stdout_err w1 out line = None"
    using ok main_stdout_err[of ud xs w] xs by simp
  obtain w2 where f: "fix_file ud p w1 = (Some e, w2)"
    using a xs by (cases "fix_file ud p w1") auto
  then have ok2: "stdout_err w2 = stdout_err w1" by (rule fix_file_stdout_err)
  let ?w3 = "w2\<lparr>stdout := stdout w2 @ [?line]\<rparr>"
  have pr: "print ?line w2 = Inr ?w3" using ok1 ok2 by (simp add: print_def)
  have one: "main ud [p] w1 = (None, ?w3)" using f pr by simp
  have xp: "main ud (xs @ [p]) w = (None, ?w3)"
    using xs one by (simp add: main_append del: main.simps)
  have all: "main ud args w = main ud ys ?w3"
    using a xs f pr main_append[of ud xs "p # ys" w] by simp
  moreover obtain ls where "stdout (snd (main ud ys ?w3)) = stdout ?w3 @ ls"
    using main_stdout_grows by blast
  ultimately show "?line \<in> set (stdout (snd (main ud args w)))" by simp
  show "main ud args w = main ud ys (snd (main ud (xs @ [p]) w))"
    using all xp by simp
qed

theorem error_is_reported_and_the_loop_goes_on_witness:
  "stdout_err demo_world = (\<lambda>out line. None) \<and>
   fst (fix_file ascii_only ''missing.js'' (snd (main ascii_only [''a.js''] demo_world))) =
     Some (no_such_file ''missing.js'') \<and>
   fst (main ascii_only [''a.js'', ''missing.js'', ''b.js''] demo_world) = None \<and>
   ''Error fixing missing.js: '' @ message (no_such_file ''missing.js'')
     \<in> set (stdout (snd (main ascii_only [''a.js'', ''missing.js'', ''b.js''] demo_world))) \<and>
   files (snd (main ascii_only [''a.js'', ''missing.js'', ''b.js''] demo_world)) ''b.js'' =
     Readable (plain ''if (options == null) { return; }'')"
proof -
  have h1: "stdout_err demo_world = (\<lambda>out line. None)" by (simp add: demo_world_def)
  have h2: "fst (fix_file ascii_only ''missing.js'' (snd (main ascii_only [''a.js''] demo_world))) =
     Some (no_such_file ''missing.js'')"
    by (simp add: demo_world_def plain_def io_defs ustr_def demo_a[unfolded ustr_def, simplified])
  have h1': "\<forall>out line. stdout_err demo_world out line = None" by (simp add: h1)
  have h3: "[''a.js'', ''missing.js'', ''b.js''] = [''a.js''] @ ''missing.js'' # [''b.js'']" by simp
  have "fst (main ascii_only [''a.js'', ''missing.js'', ''b.js''] demo_world) = None \<and>
     ''Error fixing '' @ ''missing.js'' @ '': '' @ message (no_such_file ''missing.js'')
       \<in> set (stdout (snd (main ascii_only [''a.js'', ''missing.js'', ''b.js''] demo_world)))"
    using conjunct2[OF conjunct2[OF error_is_reported_and_the_loop_goes_on[
        where ud = ascii_only and w = demo_world and args = "[''a.js'', ''missing.js'', ''b.js'']"
          and xs = "[''a.js'']" and p = "''missing.js''" and ys = "[''b.js'']"
          and e = "no_such_file ''missing.js''"]]] h1' h2 h3
    by blast
  moreover have "files (snd (main ascii_only [''a.js'', ''missing.js'', ''b.js''] demo_world)) ''b.js'' =
     Readable (plain ''if (options == null) { return; }'')"
    by (simp only: demo_run) (simp add: demo_world_def files_def)
  ultimately show ?thesis using h1 h2 by simp
qed

text \<open>
  When the output takes no line, the report of the first error raises and nothing
  catches it: the run ends there, and the file named behind the missing one is left as
  it was.
\<close>

theorem closed_pipe_ends_the_run:
  "main ascii_only [''missing.js'', ''a.js''] closed_pipe =
     (Some (Exn ''[Errno 32] Broken pipe''), closed_pipe) \<and>
   files closed_pipe ''a.js'' = Readable (plain ''console.log(\"hi\");'')"
  by (simp add: closed_pipe_def demo_world_def io_defs)

section \<open>The negation rules\<close>





text \<open>
  The rules run one after the other, each on the text the rule before it left.  So what
  is an occurrence at a word boundary in the file need not be one when its rule runs:
  the rule for \<^verbatim>\<open>text\<close> runs first and joins its replacement to the word before it.
\<close>

lemma negation_rules_in_sequence:
  "fix_text ud (ustr ''!result!text'') = ustr ''!resulttext == null''"
  by (simp add: rule_defs)

section \<open>The empty-object rule\<close>

lemma obj_literal_case:
  "fix_text ud (ustr ''if ({}) { doThing(); }'') = ustr ''if (false) { doThing(); }''"
  by (simp add: rule_defs)

text \<open>
  Claim C8.  A conditional whose test is an empty object, \<^verbatim>\<open>if\<close>, \<^verbatim>\<open>(\<close>, \<^verbatim>\<open>{\<close>, \<^verbatim>\<open>}\<close>, \<^verbatim>\<open>)\<close>
  with any runs of whitespace \<open>s1\<close> to \<open>s4\<close> between them, comes out of the rule set as
  \<^verbatim>\<open>if (false)\<close>, wherever it stands in the text: the rules before line 27 leave it as it
  is, line 27 rewrites it, and the rules behind leave \<^verbatim>\<open>if (false)\<close> as it is.  The text
  behind it, which holds the block, is rewritten as it would be alone, and what becomes
  of the text before it does not depend on what follows.  The whole rule set turns
  \<^verbatim>\<open>if ({}) { doThing(); }\<close> into \<^verbatim>\<open>if (false) { doThing(); }\<close>.
\<close>

theorem empty_object_test_becomes_false:
  "((\<forall>c\<in>set s1 \<union> set s2 \<union> set s3 \<union> set s4. in_class ud Space c) \<longrightarrow>
     (\<exists>L. \<forall>post. fix_text ud
        (pre @ (ustr ''if'' @ s1 @ ustr ''('' @ s2 @ ustr ''{'' @ s3 @ ustr ''}'' @ s4 @ ustr '')'') @ post) =
        L @ ustr ''if (false)'' @ fix_text ud post)) \<and>
   fix_text ud (ustr ''if ({}) { doThing(); }'') = ustr ''if (false) { doThing(); }''"
proof (intro conjI impI)
  assume "\<forall>c\<in>set s1 \<union> set s2 \<union> set s3 \<union> set s4. in_class ud Space c"
  then show "\<exists>L. \<forall>post. fix_text ud
        (pre @ (ustr ''if'' @ s1 @ ustr ''('' @ s2 @ ustr ''{'' @ s3 @ ustr ''}'' @ s4 @ ustr '')'') @ post) =
        L @ ustr ''if (false)'' @ fix_text ud post"
    by (rule obj_through_rules)
next
  show "fix_text ud (ustr ''if ({}) { doThing(); }'') = ustr ''if (false) { doThing(); }''"
    by (rule obj_literal_case)
qed

theorem empty_object_test_becomes_false_witness:
  "list_all (in_class ascii_only Space) (ustr ''  '' @ ustr '' '' @ [] @ ustr '' '') \<and>
   (\<exists>L. fix_text ascii_only
      (ustr ''x; '' @ (ustr ''if'' @ ustr ''  '' @ ustr ''('' @ ustr '' '' @ ustr ''{'' @ [] @ ustr ''}'' @
         ustr '' '' @ ustr '')'') @ ustr '' { a(); }'') =
      L @ ustr ''if (false)'' @ fix_text ascii_only (ustr '' { a(); }''))"
proof -
  have sp: "\<forall>c\<in>set (ustr ''  '') \<union> set (ustr '' '') \<union> set [] \<union> set (ustr '' ''). in_class ascii_only Space c"
    by (simp add: ustr_def class_defs)
  with conjunct1[OF empty_object_test_becomes_false[of "ustr ''  ''" "ustr '' ''" "[]" "ustr '' ''"
      ascii_only "ustr ''x; ''"]]
  obtain L where "\<forall>post. fix_text ascii_only
        (ustr ''x; '' @ (ustr ''if'' @ ustr ''  '' @ ustr ''('' @ ustr '' '' @ ustr ''{'' @ [] @ ustr ''}'' @
           ustr '' '' @ ustr '')'') @ post) =
        L @ ustr ''if (false)'' @ fix_text ascii_only post"
    by blast
  then have "\<exists>L. fix_text ascii_only
      (ustr ''x; '' @ (ustr ''if'' @ ustr ''  '' @ ustr ''('' @ ustr '' '' @ ustr ''{'' @ [] @ ustr ''}'' @
         ustr '' '' @ ustr '')'') @ ustr '' { a(); }'') =
      L @ ustr ''if (false)'' @ fix_text ascii_only (ustr '' { a(); }'')"
    by blast
  moreover have "list_all (in_class ascii_only Space) (ustr ''  '' @ ustr '' '' @ [] @ ustr '' '')"
    by (simp add: ustr_def class_defs)
  ultimately show ?thesis by blast
qed

section \<open>The indexed-lookup rules\<close>




lemma lookup_demo:
  "re_sub ascii_only pat_value repl_name (ustr ''a = b[value] || c[value] || d'') =
     ustr ''a = b[name] ?? c[name] ?? d''"
  by (simp add: rule_defs)


section \<open>The rule for unused names\<close>







section \<open>A second pass\<close>







end
